theory Spec2Isabelle
  imports Complex_Main "HOL-Library.Char_ord" "HOL-Library.List_Lexorder"
    "HOL-Library.Product_Lexorder"
begin

section \<open>Collocation engine of CHL\_PFT\_Data\_Processing.py\<close>

text \<open>
  The embedding follows \<^verbatim>\<open>src/CHL_PFT_Data_Processing.py\<close>.  Coordinates, axis values
  and the tolerance are Python floats; they are modelled as exact reals (no rounding, and
  the input schema gives every sample a latitude and a longitude in degrees, so a
  coordinate is a number).  Values read from a data variable keep the IEEE special
  values, because the code tests them with \<^verbatim>\<open>np.isfinite\<close> and writes \<^verbatim>\<open>np.nan\<close> as the
  ``no data'' marker.  Every \<^verbatim>\<open>raise\<close> of the source is a value \<open>Inl e\<close>.
\<close>

subsection \<open>Values and errors\<close>

datatype py_error = KeyError | IndexError | ValueError

datatype pyfloat = Fin real | PInf | NInf | NaN

fun np_isfinite :: "pyfloat \<Rightarrow> bool" where
  "np_isfinite (Fin x) = True"
| "np_isfinite PInf = False"
| "np_isfinite NInf = False"
| "np_isfinite NaN = False"

subsection \<open>Longitude helpers\<close>

text \<open>Python's \<^verbatim>\<open>x % m\<close> on floats, for a positive modulus: the result has the sign of \<open>m\<close>.\<close>

definition pymod :: "real \<Rightarrow> real \<Rightarrow> real" where
  "pymod x m = x - m * of_int \<lfloor>x / m\<rfloor>"

definition lon_to_180 :: "real \<Rightarrow> real" where
  "lon_to_180 lon = pymod (lon + 180) 360 - 180"

definition lon_to_360 :: "real \<Rightarrow> real" where
  "lon_to_360 lon = pymod lon 360"

text \<open>\<^verbatim>\<open>np.nanmin\<close> and \<^verbatim>\<open>np.nanmax\<close> raise ValueError on an empty array.\<close>

fun np_nanmin :: "real list \<Rightarrow> py_error + real" where
  "np_nanmin [] = Inl ValueError"
| "np_nanmin (x # xs) = Inr (fold min xs x)"

fun np_nanmax :: "real list \<Rightarrow> py_error + real" where
  "np_nanmax [] = Inl ValueError"
| "np_nanmax (x # xs) = Inr (fold max xs x)"

definition adapt_query_lon :: "real list \<Rightarrow> real \<Rightarrow> py_error + real" where
  "adapt_query_lon lon_vals qlon =
     (case np_nanmin lon_vals of
        Inl e \<Rightarrow> Inl e
      | Inr lo \<Rightarrow>
          if 0 \<le> lo then
            (case np_nanmax lon_vals of
               Inl e \<Rightarrow> Inl e
             | Inr hi \<Rightarrow> if 180 < hi then Inr (lon_to_360 qlon) else Inr (lon_to_180 qlon))
          else Inr (lon_to_180 qlon))"

subsection \<open>Nearest index\<close>

text \<open>\<^verbatim>\<open>np.diff(arr)\<close>: the differences of consecutive elements.\<close>

definition np_diff :: "real list \<Rightarrow> real list" where
  "np_diff arr = map (\<lambda>(a, b). b - a) (zip arr (tl arr))"

text \<open>
  \<^verbatim>\<open>np.searchsorted(arr, value)\<close> with the default \<^verbatim>\<open>side='left'\<close>: numpy's binary
  search between \<open>lo\<close> and \<open>hi\<close>.
\<close>

function bsearch_left :: "real list \<Rightarrow> real \<Rightarrow> nat \<Rightarrow> nat \<Rightarrow> nat" where
  "bsearch_left arr key lo hi =
     (if lo < hi then
        (let mid = lo + (hi - lo) div 2 in
         if arr ! mid < key then bsearch_left arr key (mid + 1) hi
         else bsearch_left arr key lo mid)
      else lo)"
  by pat_completeness auto
termination
  by (relation "measure (\<lambda>(arr, key, lo, hi). hi - lo)") auto

declare bsearch_left.simps [simp del]

definition searchsorted :: "real list \<Rightarrow> real \<Rightarrow> nat" where
  "searchsorted arr v = bsearch_left arr v 0 (length arr)"

text \<open>
  \<^verbatim>\<open>np.argmin\<close>: a left-to-right scan that keeps the first minimum; ValueError on an
  empty array.
\<close>

fun argmin_scan :: "'a::linorder list \<Rightarrow> nat \<Rightarrow> nat \<Rightarrow> 'a \<Rightarrow> nat" where
  "argmin_scan [] i bi bv = bi"
| "argmin_scan (x # xs) i bi bv =
     (if x < bv then argmin_scan xs (Suc i) i x else argmin_scan xs (Suc i) bi bv)"

fun np_argmin :: "'a::linorder list \<Rightarrow> py_error + nat" where
  "np_argmin [] = Inl ValueError"
| "np_argmin (x # xs) = Inr (argmin_scan xs 1 0 x)"

text \<open>The linear scan \<^verbatim>\<open>int(np.argmin(np.abs(arr - value)))\<close>.\<close>

definition linear_nearest :: "real list \<Rightarrow> real \<Rightarrow> py_error + nat" where
  "linear_nearest arr v = np_argmin (map (\<lambda>a. \<bar>a - v\<bar>) arr)"

text \<open>
  \<^verbatim>\<open>nearest_index\<close>: the monotonic fast path inside \<^verbatim>\<open>try\<close>, the linear scan as the
  other branch and again in the \<^verbatim>\<open>except\<close> handler.  An axis is a 1-D list here, so
  \<^verbatim>\<open>arr.ndim == 1\<close> holds.
\<close>

definition nearest_index_try :: "real list \<Rightarrow> real \<Rightarrow> py_error + nat" where
  "nearest_index_try arr v =
     (if list_all (\<lambda>d. 0 \<le> d) (np_diff arr) then
        (let i = searchsorted arr v in
         if i = 0 then Inr 0
         else if length arr \<le> i then Inr (length arr - 1)
         else Inr (if \<bar>arr ! i - v\<bar> < \<bar>arr ! (i - 1) - v\<bar> then i else i - 1))
      else linear_nearest arr v)"

definition nearest_index :: "real list \<Rightarrow> real \<Rightarrow> py_error + nat" where
  "nearest_index arr v =
     (case nearest_index_try arr v of
        Inr i \<Rightarrow> Inr i
      | Inl e \<Rightarrow> linear_nearest arr v)"

subsection \<open>Time slice\<close>

text \<open>
  The time axis holds \<^verbatim>\<open>datetime64[ns]\<close> values (integers, nanoseconds since the epoch);
  the sample's day is a \<^verbatim>\<open>datetime64[D]\<close> (an integer number of days), which numpy
  converts to nanoseconds for the subtraction.  \<open>[]\<close> is a dataset with no time axis
  (\<^verbatim>\<open>sizes.get('time', 0)\<close> is 0).
\<close>

definition ns_per_day :: int where
  "ns_per_day = 86400000000000"

text \<open>
  A data variable: its dimension names, and what \<^verbatim>\<open>da.isel(**indexer).item()\<close> gives for
  an indexer (a dict from dimension name to index): a scalar, or \<open>None\<close> when xarray raises
  (a dimension the variable does not have, an index out of range, a result that is not a
  scalar).
\<close>

record variable =
  var_dims :: "string list"
  var_item :: "(string \<rightharpoonup> nat) \<Rightarrow> pyfloat option"

text \<open>
  An opened dataset: \<^verbatim>\<open>ds['lat'].values\<close> and \<^verbatim>\<open>ds['lon'].values\<close> (\<open>None\<close> when the
  dataset has no such variable, where \<^verbatim>\<open>ds[name]\<close> raises KeyError), the time axis and
  \<^verbatim>\<open>ds.data_vars\<close>.
\<close>

record dataset =
  ds_lat :: "real list option"
  ds_lon :: "real list option"
  ds_time :: "int list"
  ds_data_vars :: "string \<rightharpoonup> variable"

definition LAT_NAME :: string where "LAT_NAME = ''lat''"
definition LON_NAME :: string where "LON_NAME = ''lon''"
definition TIME_NAME :: string where "TIME_NAME = ''time''"

definition compute_time_index :: "dataset \<Rightarrow> int \<Rightarrow> py_error + nat option" where
  "compute_time_index ds when_np_day =
     (let time_len = length (ds_time ds) in
      if time_len \<le> 0 then Inr None
      else if time_len = 1 then Inr (Some 0)
      else (case np_argmin (map (\<lambda>t. \<bar>t - when_np_day * ns_per_day\<bar>) (ds_time ds)) of
              Inr i \<Rightarrow> Inr (Some i)
            | Inl e \<Rightarrow> Inl e))"


subsection \<open>One day's dataset against the day's rows\<close>

text \<open>
  A row of the sample table as \<^verbatim>\<open>process_one_day\<close> and \<^verbatim>\<open>main\<close> read it: the date columns,
  the two coordinates, and the helper column \<^verbatim>\<open>_np_datetime\<close> (days since the epoch).
\<close>

record sample =
  s_year :: nat
  s_month :: nat
  s_day :: nat
  s_lat :: real
  s_lon :: real
  s_np_datetime :: int

text \<open>The loop \<^verbatim>\<open>for v in var_names: res[v] = np.nan\<close> on an empty dict.\<close>

definition all_nan :: "string list \<Rightarrow> (string \<rightharpoonup> pyfloat)" where
  "all_nan var_names = fold (\<lambda>v res. res(v \<mapsto> NaN)) var_names Map.empty"

text \<open>
  The circular longitude difference of the tolerance gate,
  \<^verbatim>\<open>abs((((nearest_lon - qlon) + 180.0) % 360.0) - 180.0)\<close>.
\<close>

definition circ_abs_diff :: "real \<Rightarrow> real \<Rightarrow> real" where
  "circ_abs_diff nearest_lon qlon = \<bar>pymod ((nearest_lon - qlon) + 180) 360 - 180\<bar>"

text \<open>
  The body of the loop over \<^verbatim>\<open>var_names\<close> for one accepted sample: a variable missing
  from the dataset, a read that raises and a non-finite value all give \<^verbatim>\<open>np.nan\<close>.
\<close>

definition extract_var :: "dataset \<Rightarrow> nat \<Rightarrow> nat \<Rightarrow> nat option \<Rightarrow> string \<Rightarrow> pyfloat" where
  "extract_var ds ilat ilon time_index v =
     (case ds_data_vars ds v of
        None \<Rightarrow> NaN
      | Some da \<Rightarrow>
          (let indexer = [LAT_NAME \<mapsto> ilat, LON_NAME \<mapsto> ilon];
               indexer' = (case time_index of
                             Some ti \<Rightarrow> if TIME_NAME \<in> set (var_dims da)
                                        then indexer(TIME_NAME \<mapsto> ti) else indexer
                           | None \<Rightarrow> indexer)
           in case var_item da indexer' of
                None \<Rightarrow> NaN
              | Some val \<Rightarrow> if np_isfinite val then val else NaN))"

text \<open>The body of \<^verbatim>\<open>for ridx, r in rows.iterrows()\<close>: the dict \<^verbatim>\<open>res\<close> of one row.\<close>

definition process_row ::
  "dataset \<Rightarrow> real list \<Rightarrow> real list \<Rightarrow> nat option \<Rightarrow> string list \<Rightarrow> real \<Rightarrow> sample
     \<Rightarrow> py_error + (string \<rightharpoonup> pyfloat)" where
  "process_row ds lat_vals lon_vals time_index var_names tol_deg r =
     (let lat = s_lat r; lon = s_lon r in
      case adapt_query_lon lon_vals lon of
        Inl e \<Rightarrow> Inl e
      | Inr qlon \<Rightarrow>
          (let qlat = lat in
           case nearest_index lat_vals qlat of
             Inl e \<Rightarrow> Inl e
           | Inr ilat \<Rightarrow>
               (case nearest_index lon_vals qlon of
                  Inl e \<Rightarrow> Inl e
                | Inr ilon \<Rightarrow>
                    if \<not> ilat < length lat_vals then Inl IndexError
                    else if \<not> ilon < length lon_vals then Inl IndexError
                    else
                      (let nearest_lat = lat_vals ! ilat;
                           nearest_lon = lon_vals ! ilon;
                           dlat = \<bar>nearest_lat - qlat\<bar>;
                           dlon = circ_abs_diff nearest_lon qlon
                       in if dlat > tol_deg \<or> dlon > tol_deg then Inr (all_nan var_names)
                          else Inr (fold (\<lambda>v res. res(v \<mapsto> extract_var ds ilat ilon time_index v))
                                      var_names Map.empty)))))"

fun process_rows ::
  "dataset \<Rightarrow> real list \<Rightarrow> real list \<Rightarrow> nat option \<Rightarrow> string list \<Rightarrow> real
     \<Rightarrow> (nat \<times> sample) list \<Rightarrow> (nat \<rightharpoonup> (string \<rightharpoonup> pyfloat))
     \<Rightarrow> py_error + (nat \<rightharpoonup> (string \<rightharpoonup> pyfloat))" where
  "process_rows ds lat_vals lon_vals time_index var_names tol_deg [] results = Inr results"
| "process_rows ds lat_vals lon_vals time_index var_names tol_deg ((ridx, r) # rows) results =
     (case process_row ds lat_vals lon_vals time_index var_names tol_deg r of
        Inl e \<Rightarrow> Inl e
      | Inr res \<Rightarrow>
          process_rows ds lat_vals lon_vals time_index var_names tol_deg rows
            (results(ridx \<mapsto> res)))"

text \<open>
  \<^verbatim>\<open>process_one_day\<close>.  \<^verbatim>\<open>ds['lat']\<close> and \<^verbatim>\<open>ds['lon']\<close> raise KeyError on a dataset without
  the axis, \<^verbatim>\<open>rows.iloc[0]\<close> raises IndexError on an empty group; none of them is caught.
\<close>

definition process_one_day ::
  "dataset \<Rightarrow> (nat \<times> sample) list \<Rightarrow> string list \<Rightarrow> real
     \<Rightarrow> py_error + (nat \<rightharpoonup> (string \<rightharpoonup> pyfloat))" where
  "process_one_day ds rows var_names tol_deg =
     (case ds_lat ds of
        None \<Rightarrow> Inl KeyError
      | Some lat_vals \<Rightarrow>
          (case ds_lon ds of
             None \<Rightarrow> Inl KeyError
           | Some lon_vals \<Rightarrow>
               (case rows of
                  [] \<Rightarrow> Inl IndexError
                | (ridx0, r0) # rest \<Rightarrow>
                    (case compute_time_index ds (s_np_datetime r0) of
                       Inl e \<Rightarrow> Inl e
                     | Inr time_index \<Rightarrow>
                         process_rows ds lat_vals lon_vals time_index var_names tol_deg
                           rows Map.empty))))"

subsection \<open>File resolver\<close>

text \<open>
  The file system as the script sees it: the names in a directory (\<open>[]\<close> for a directory
  that does not exist), and what \<^verbatim>\<open>xr.open_dataset(path, ...)\<close> returns (\<open>None\<close> when it
  raises).  Paths follow the POSIX rules of \<^verbatim>\<open>os.path\<close>; the base directory is taken
  literally (it contains no glob character).
\<close>

record filesystem =
  fs_listdir :: "string \<Rightarrow> string list"
  fs_open :: "string \<rightharpoonup> dataset"

text \<open>\<^verbatim>\<open>str(n)\<close> for a non-negative integer, and the format \<^verbatim>\<open>f"{n:0wd}"\<close>.\<close>

definition digit_char :: "nat \<Rightarrow> char" where
  "digit_char n = ''0123456789'' ! (n mod 10)"

function py_str :: "nat \<Rightarrow> string" where
  "py_str n = (if n < 10 then [digit_char n] else py_str (n div 10) @ [digit_char (n mod 10)])"
  by pat_completeness auto
termination
  by (relation "measure id") auto

declare py_str.simps [simp del]

definition fmt_0d :: "nat \<Rightarrow> nat \<Rightarrow> string" where
  "fmt_0d w n = replicate (w - length (py_str n)) CHR ''0'' @ py_str n"

definition path_join :: "string \<Rightarrow> string \<Rightarrow> string" where
  "path_join a b =
     (if b \<noteq> [] \<and> hd b = CHR ''/'' then b
      else if a = [] \<or> last a = CHR ''/'' then a @ b
      else a @ ''/'' @ b)"

text \<open>
  \<^verbatim>\<open>fnmatch\<close> for the patterns the script builds: literal characters and \<^verbatim>\<open>*\<close>.
\<close>

datatype glob_tok = Lit char | Star

fun fnmatch :: "glob_tok list \<Rightarrow> string \<Rightarrow> bool" where
  "fnmatch [] s = (s = [])"
| "fnmatch (Lit c # p) [] = False"
| "fnmatch (Lit c # p) (x # s) = (x = c \<and> fnmatch p s)"
| "fnmatch (Star # p) [] = fnmatch p []"
| "fnmatch (Star # p) (x # s) = (fnmatch p (x # s) \<or> fnmatch (Star # p) s)"

definition ishidden :: "string \<Rightarrow> bool" where
  "ishidden name = (name \<noteq> [] \<and> hd name = CHR ''.'')"

text \<open>
  \<^verbatim>\<open>glob.glob\<close> on \<^verbatim>\<open>dirname/pattern\<close>.  A pattern with \<^verbatim>\<open>*\<close> filters the directory
  listing, leaving out hidden names (none of the patterns starts with a dot); a pattern
  without it names one file, returned when it exists.
\<close>

definition glob_magic :: "filesystem \<Rightarrow> string \<Rightarrow> glob_tok list \<Rightarrow> string list" where
  "glob_magic fs dirname pat =
     map (path_join dirname)
       (filter (fnmatch pat) (filter (\<lambda>x. \<not> ishidden x) (fs_listdir fs dirname)))"

definition glob_plain :: "filesystem \<Rightarrow> string \<Rightarrow> string \<Rightarrow> string list" where
  "glob_plain fs dirname name =
     (if name \<in> set (fs_listdir fs dirname) then [path_join dirname name] else [])"

definition file_candidates_for_date ::
  "filesystem \<Rightarrow> string \<Rightarrow> nat \<Rightarrow> nat \<Rightarrow> nat \<Rightarrow> string list" where
  "file_candidates_for_date fs base_dir y m d =
     (let ymd = fmt_0d 4 y @ fmt_0d 2 m @ fmt_0d 2 d;
          year_dir = path_join base_dir (fmt_0d 4 y);
          files = glob_magic fs year_dir (map Lit ymd @ [Lit CHR ''_'', Star] @ map Lit ''.nc'')
                @ glob_magic fs year_dir ([Star] @ map Lit ymd @ [Star] @ map Lit ''.nc'')
                @ glob_plain fs year_dir (ymd @ ''.nc'')
      in sort (remdups files))"

text \<open>
  The loop over the candidates in \<^verbatim>\<open>main\<close>: the first path that opens, with its dataset.
\<close>

fun open_first :: "filesystem \<Rightarrow> string list \<Rightarrow> (string \<times> dataset) option" where
  "open_first fs [] = None"
| "open_first fs (path # paths) =
     (case fs_open fs path of
        Some ds \<Rightarrow> Some (path, ds)
      | None \<Rightarrow> open_first fs paths)"

subsection \<open>The loop over the day-groups in \<^verbatim>\<open>main\<close>\<close>

definition DEFAULT_PLANKTON_VARS :: "string list" where
  "DEFAULT_PLANKTON_VARS =
     [''CHL'', ''CHL_uncertainty'', ''flags'',
      ''DIATO'', ''DINO'', ''HAPTO'', ''GREEN'', ''PROKAR'', ''PROCHLO'', ''MICRO'', ''NANO'',
      ''PICO'',
      ''DIATO_uncertainty'', ''DINO_uncertainty'', ''HAPTO_uncertainty'', ''GREEN_uncertainty'',
      ''PROKAR_uncertainty'', ''PROCHLO_uncertainty'', ''MICRO_uncertainty'',
      ''NANO_uncertainty'', ''PICO_uncertainty'']"

definition DEFAULT_OPTICS_VARS :: "string list" where
  "DEFAULT_OPTICS_VARS = [''BBP'', ''BBP_uncertainty'', ''flags'', ''CDM'', ''CDM_uncertainty'']"

definition DEFAULT_TOL_DEG :: real where
  "DEFAULT_TOL_DEG = 0.05"

definition RENAME_OUT :: "(string \<times> string) \<rightharpoonup> string" where
  "RENAME_OUT = [(''optics'', ''flags'') \<mapsto> ''flags_optics'']"

text \<open>\<^verbatim>\<open>RENAME_OUT.get(("optics", v), v)\<close>.\<close>

definition out_name_optics :: "string \<Rightarrow> string" where
  "out_name_optics v = (case RENAME_OUT (''optics'', v) of Some n \<Rightarrow> n | None \<Rightarrow> v)"

text \<open>The command-line arguments the loop reads.\<close>

record args =
  plankton_base_dir :: string
  optics_base_dir :: "string option"
  tol_deg :: real
  plankton_vars :: "string list"
  optics_vars :: "string list"

text \<open>
  The value columns of the data frame: a column name is mapped to its column, a function
  from the row label to the cell.  The date and coordinate columns are the typed rows
  (\<open>sample\<close>) and are kept apart; the row label is the position of the row.
\<close>

type_synonym cells = "string \<rightharpoonup> (nat \<Rightarrow> pyfloat)"

text \<open>\<^verbatim>\<open>if v not in df.columns: df[v] = np.nan\<close>.\<close>

definition prepare_column :: "string \<Rightarrow> cells \<Rightarrow> cells" where
  "prepare_column c cells = (if cells c = None then cells(c \<mapsto> (\<lambda>ridx. NaN)) else cells)"

definition prepare_columns :: "args \<Rightarrow> cells \<Rightarrow> cells" where
  "prepare_columns a cells =
     fold (\<lambda>v. prepare_column (out_name_optics v)) (optics_vars a)
       (fold prepare_column (plankton_vars a) cells)"

text \<open>
  \<^verbatim>\<open>df.at[ridx, c] = x\<close>; on a column that does not exist pandas creates it, with
  \<^verbatim>\<open>NaN\<close> in the other rows.
\<close>

definition df_at_set :: "cells \<Rightarrow> nat \<Rightarrow> string \<Rightarrow> pyfloat \<Rightarrow> cells" where
  "df_at_set cells ridx c x =
     (case cells c of
        Some col \<Rightarrow> cells(c \<mapsto> col(ridx := x))
      | None \<Rightarrow> cells(c \<mapsto> (\<lambda>i. NaN)(ridx := x)))"

text \<open>\<^verbatim>\<open>values.get(v, np.nan)\<close>.\<close>

definition values_get :: "(string \<rightharpoonup> pyfloat) \<Rightarrow> string \<Rightarrow> pyfloat" where
  "values_get values v = (case values v of Some x \<Rightarrow> x | None \<Rightarrow> NaN)"

text \<open>
  The two nested loops that merge a day's results,
  \<^verbatim>\<open>for ridx, values in day_results.items(): for v in vars: df.at[ridx, out(v)] = ...\<close>.
  The keys of \<^verbatim>\<open>day_results\<close> are the labels of the day's rows, in their order.
\<close>

definition write_row ::
  "(string \<Rightarrow> string) \<Rightarrow> string list \<Rightarrow> nat \<Rightarrow> (string \<rightharpoonup> pyfloat) \<Rightarrow> cells \<Rightarrow> cells" where
  "write_row out vars ridx values cells =
     fold (\<lambda>v c. df_at_set c ridx (out v) (values_get values v)) vars cells"

definition write_day ::
  "(string \<Rightarrow> string) \<Rightarrow> string list \<Rightarrow> nat list \<Rightarrow> (nat \<rightharpoonup> (string \<rightharpoonup> pyfloat))
     \<Rightarrow> cells \<Rightarrow> cells" where
  "write_day out vars ridxs day_results cells =
     fold (\<lambda>ridx c. case day_results ridx of
                       Some values \<Rightarrow> write_row out vars ridx values c
                     | None \<Rightarrow> c) ridxs cells"

text \<open>The messages the loop prints, and the state it threads.\<close>

datatype diag =
    Processing nat
  | MissingVars nat string "string list"
  | CouldNotOpen nat string
  | NoFileFound nat string
  | DayDone nat nat

record run_state =
  rs_cells :: cells
  rs_log :: "diag list"
  rs_opened :: "string list"

text \<open>
  One product for one day-group: the \<^verbatim>\<open>PLANKTON\<close> block, and the \<^verbatim>\<open>OPTICS\<close> block with
  the renamed output column.  An error raised by \<^verbatim>\<open>process_one_day\<close> is not caught: it
  leaves \<^verbatim>\<open>main\<close>, with the state as it is then.  \<^verbatim>\<open>ds.close()\<close> releases the handle
  (an error it raises is swallowed).
\<close>

definition product_step ::
  "filesystem \<Rightarrow> string \<Rightarrow> string \<Rightarrow> string list \<Rightarrow> (string \<Rightarrow> string) \<Rightarrow> real \<Rightarrow> nat
     \<Rightarrow> nat \<times> nat \<times> nat \<Rightarrow> (nat \<times> sample) list \<Rightarrow> run_state
     \<Rightarrow> (py_error \<times> run_state) + run_state" where
  "product_step fs product base_dir vars out tol gi day rows st =
     (case day of (y, m, d) \<Rightarrow>
      (let candidates = file_candidates_for_date fs base_dir y m d in
       if candidates \<noteq> [] then
         (case open_first fs candidates of
            Some (path, ds) \<Rightarrow>
              (let st1 = st\<lparr>rs_opened := path # rs_opened st\<rparr>;
                   present_vars = filter (\<lambda>v. ds_data_vars ds v \<noteq> None) vars;
                   missing = filter (\<lambda>v. ds_data_vars ds v = None) vars;
                   st2 = (if missing \<noteq> []
                          then st1\<lparr>rs_log := rs_log st1 @ [MissingVars gi product missing]\<rparr>
                          else st1)
               in case process_one_day ds rows present_vars tol of
                    Inl e \<Rightarrow> Inl (e, st2)
                  | Inr day_results \<Rightarrow>
                      Inr (st2\<lparr>rs_cells :=
                                 write_day out vars (map fst rows) day_results (rs_cells st2),
                               rs_opened := remove1 path (rs_opened st2)\<rparr>))
          | None \<Rightarrow> Inr (st\<lparr>rs_log := rs_log st @ [CouldNotOpen gi product]\<rparr>))
       else Inr (st\<lparr>rs_log := rs_log st @ [NoFileFound gi product]\<rparr>)))"

text \<open>The body of \<^verbatim>\<open>for gi, (day, rows) in enumerate(grouped, start=1)\<close>.\<close>

definition day_step ::
  "args \<Rightarrow> filesystem \<Rightarrow> nat \<times> (nat \<times> nat \<times> nat) \<times> (nat \<times> sample) list \<Rightarrow> run_state
     \<Rightarrow> (py_error \<times> run_state) + run_state" where
  "day_step a fs g st =
     (case g of (gi, day, rows) \<Rightarrow>
      (case product_step fs ''plankton'' (plankton_base_dir a) (plankton_vars a) (\<lambda>v. v)
              (tol_deg a) gi day rows st of
         Inl x \<Rightarrow> Inl x
       | Inr st1 \<Rightarrow>
           (case (case optics_base_dir a of
                    None \<Rightarrow> Inr st1
                  | Some dir \<Rightarrow>
                      if dir \<noteq> [] then
                        product_step fs ''optics'' dir (optics_vars a) out_name_optics
                          (tol_deg a) gi day rows st1
                      else Inr st1) of
              Inl x \<Rightarrow> Inl x
            | Inr st2 \<Rightarrow> Inr (st2\<lparr>rs_log := rs_log st2 @ [DayDone gi (length rows)]\<rparr>))))"

fun main_loop ::
  "args \<Rightarrow> filesystem \<Rightarrow> (nat \<times> (nat \<times> nat \<times> nat) \<times> (nat \<times> sample) list) list \<Rightarrow> run_state
     \<Rightarrow> (py_error \<times> run_state) + run_state" where
  "main_loop a fs [] st = Inr st"
| "main_loop a fs (g # gs) st =
     (case day_step a fs g st of
        Inl x \<Rightarrow> Inl x
      | Inr st' \<Rightarrow> main_loop a fs gs st')"

text \<open>
  \<^verbatim>\<open>df.groupby("_date", sort=True)\<close>: one group per distinct date, in ascending order of
  the date, each with its rows and their labels in the order of the table.
\<close>

definition date_key :: "sample \<Rightarrow> nat \<times> nat \<times> nat" where
  "date_key r = (s_year r, s_month r, s_day r)"

definition groupby_date :: "sample list \<Rightarrow> ((nat \<times> nat \<times> nat) \<times> (nat \<times> sample) list) list" where
  "groupby_date rows =
     map (\<lambda>k. (k, filter (\<lambda>(ridx, r). date_key r = k) (enumerate 0 rows)))
       (sort (remdups (map date_key rows)))"

text \<open>
  \<^verbatim>\<open>main\<close> from the preparation of the output columns to the end of the loop (reading the
  table and writing the result files are left to the caller).
\<close>

definition main ::
  "args \<Rightarrow> filesystem \<Rightarrow> sample list \<Rightarrow> cells \<Rightarrow> (py_error \<times> run_state) + run_state" where
  "main a fs rows cells0 =
     (let cells = prepare_columns a cells0;
          grouped = groupby_date rows;
          total_groups = length grouped
      in main_loop a fs (enumerate 1 grouped)
           \<lparr>rs_cells = cells, rs_log = [Processing total_groups], rs_opened = []\<rparr>)"

subsection \<open>Specification predicates\<close>

text \<open>\<open>first_min xs i\<close>: \<open>i\<close> is the lowest index at which \<open>xs\<close> takes its minimum.\<close>

definition first_min :: "'a::linorder list \<Rightarrow> nat \<Rightarrow> bool" where
  "first_min xs i \<longleftrightarrow>
     i < length xs \<and> (\<forall>j<length xs. xs ! i \<le> xs ! j) \<and> (\<forall>j<i. xs ! i < xs ! j)"

text \<open>The result of a left binary search between \<open>lo\<close> and \<open>hi\<close>.\<close>

definition bs_post :: "real list \<Rightarrow> real \<Rightarrow> nat \<Rightarrow> nat \<Rightarrow> nat \<Rightarrow> bool" where
  "bs_post arr key lo hi r \<longleftrightarrow>
     lo \<le> r \<and> r \<le> hi \<and> (\<forall>j<r. arr ! j < key) \<and>
     (\<forall>j. r \<le> j \<and> j < length arr \<longrightarrow> key \<le> arr ! j)"


text \<open>A cell of the table; a column that does not exist reads as ``no data''.\<close>

definition cellv :: "cells \<Rightarrow> string \<Rightarrow> nat \<Rightarrow> pyfloat" where
  "cellv cells c ridx = (case cells c of Some col \<Rightarrow> col ridx | None \<Rightarrow> NaN)"

text \<open>A finite number or the ``no data'' marker.\<close>

fun value_or_nodata :: "pyfloat \<Rightarrow> bool" where
  "value_or_nodata (Fin x) = True"
| "value_or_nodata NaN = True"
| "value_or_nodata PInf = False"
| "value_or_nodata NInf = False"

text \<open>A dataset with a latitude and a longitude axis, each with at least one value.\<close>

definition has_axes :: "dataset \<Rightarrow> bool" where
  "has_axes ds =
     ((case ds_lat ds of Some lat_vals \<Rightarrow> lat_vals \<noteq> [] | None \<Rightarrow> False) \<and>
      (case ds_lon ds of Some lon_vals \<Rightarrow> lon_vals \<noteq> [] | None \<Rightarrow> False))"

text \<open>What a run leaves: the error that ended it, the handles still open, a cell.\<close>

definition run_error :: "(py_error \<times> run_state) + run_state \<Rightarrow> py_error option" where
  "run_error res = (case res of Inl (e, st) \<Rightarrow> Some e | Inr st \<Rightarrow> None)"

definition run_opened :: "(py_error \<times> run_state) + run_state \<Rightarrow> string list" where
  "run_opened res = (case res of Inl (e, st) \<Rightarrow> rs_opened st | Inr st \<Rightarrow> rs_opened st)"

definition run_cell :: "(py_error \<times> run_state) + run_state \<Rightarrow> string \<Rightarrow> nat \<Rightarrow> pyfloat option" where
  "run_cell res c ridx = (case res of Inl x \<Rightarrow> None | Inr st \<Rightarrow> Some (cellv (rs_cells st) c ridx))"




text \<open>
  What one product contributes to the cell of a row and a variable, from that product's
  files alone: \<open>None\<close> when the product has no file that opens for the day (the cell keeps
  what it held), else the value merged from the day's results.
\<close>

definition product_value ::
  "filesystem \<Rightarrow> string \<Rightarrow> string list \<Rightarrow> real \<Rightarrow> nat \<times> nat \<times> nat \<Rightarrow> (nat \<times> sample) list
     \<Rightarrow> nat \<Rightarrow> string \<Rightarrow> pyfloat option" where
  "product_value fs base_dir vars tol day day_rows ridx v =
     (case day of (y, m, d) \<Rightarrow>
      (case open_first fs (file_candidates_for_date fs base_dir y m d) of
         None \<Rightarrow> None
       | Some (path, ds) \<Rightarrow>
           (case process_one_day ds day_rows (filter (\<lambda>v. ds_data_vars ds v \<noteq> None) vars) tol of
              Inl e \<Rightarrow> None
            | Inr day_results \<Rightarrow>
                (case day_results ridx of
                   None \<Rightarrow> None
                 | Some vals \<Rightarrow> Some (values_get vals v)))))"

text \<open>The rows of the day-group of row \<open>ridx\<close>, with their labels.\<close>

definition day_rows_of :: "sample list \<Rightarrow> nat \<Rightarrow> (nat \<times> sample) list" where
  "day_rows_of rows ridx =
     filter (\<lambda>(j, r). date_key r = date_key (rows ! ridx)) (enumerate 0 rows)"

subsection \<open>Concrete data used to instantiate the theorems\<close>

text \<open>A variable on the dimensions \<open>(lat, lon)\<close> backed by a list of rows.\<close>

definition grid_var :: "real list list \<Rightarrow> variable" where
  "grid_var g =
     \<lparr>var_dims = [LAT_NAME, LON_NAME],
      var_item = (\<lambda>ix. case ix LAT_NAME of
                          None \<Rightarrow> None
                        | Some i \<Rightarrow>
                            (case ix LON_NAME of
                               None \<Rightarrow> None
                             | Some j \<Rightarrow>
                                 if ix TIME_NAME = None \<and> i < length g \<and> j < length (g ! i)
                                 then Some (Fin (g ! i ! j)) else None))\<rparr>"

text \<open>The dataset of the end-to-end scenario: a 3 by 3 grid with CHL = 0.42 at its centre.\<close>

definition ex_ds :: dataset where
  "ex_ds =
     \<lparr>ds_lat = Some [40.9, 41.0, 41.1],
      ds_lon = Some [- 8.8, - 8.7, - 8.6],
      ds_time = [],
      ds_data_vars = [''CHL'' \<mapsto> grid_var [[0.1, 0.2, 0.3], [0.4, 0.42, 0.5], [0.6, 0.7, 0.8]]]\<rparr>"

definition ex_sample :: sample where
  "ex_sample =
     \<lparr>s_year = 2020, s_month = 3, s_day = 15, s_lat = 41.05, s_lon = - 8.70,
      s_np_datetime = 18336\<rparr>"

text \<open>A sample 0.06 degrees north of the last latitude of the grid.\<close>

definition ex_sample_far :: sample where
  "ex_sample_far =
     \<lparr>s_year = 2020, s_month = 3, s_day = 15, s_lat = 41.16, s_lon = - 8.70,
      s_np_datetime = 18336\<rparr>"

definition ex_rows :: "(nat \<times> sample) list" where
  "ex_rows = [(0, ex_sample), (1, ex_sample_far)]"



definition ex_results :: "nat \<rightharpoonup> (string \<rightharpoonup> pyfloat)" where
  "ex_results = [0 \<mapsto> [''CHL'' \<mapsto> Fin 0.42], 1 \<mapsto> [''CHL'' \<mapsto> NaN]]"


text \<open>A sample of the next day.\<close>

definition ex_sample_next :: sample where
  "ex_sample_next =
     \<lparr>s_year = 2020, s_month = 3, s_day = 16, s_lat = 41.0, s_lon = 351.3,
      s_np_datetime = 18337\<rparr>"

text \<open>An optics dataset on the same grid, with a finite BBP and an infinite CDM.\<close>

definition ex_ds_optics :: dataset where
  "ex_ds_optics =
     ex_ds\<lparr>ds_data_vars :=
              [''BBP'' \<mapsto> grid_var [[1, 2, 3], [4, 5, 6], [7, 8, 9]],
               ''flags'' \<mapsto> grid_var [[0, 0, 0], [0, 1, 0], [0, 0, 0]],
               ''CDM'' \<mapsto> \<lparr>var_dims = [LAT_NAME, LON_NAME], var_item = (\<lambda>ix. Some PInf)\<rparr>]\<rparr>"

text \<open>
  Two products.  The plankton product has a file for 2020-03-15 only; the optics product
  has one for each of the two days, and for the first day also a file that does not open.
\<close>

definition ex_args :: args where
  "ex_args =
     \<lparr>plankton_base_dir = ''/p'', optics_base_dir = Some ''/o'', tol_deg = 0.05,
      plankton_vars = [''CHL'', ''flags''], optics_vars = [''BBP'', ''flags'', ''CDM'']\<rparr>"

definition ex_fs :: filesystem where
  "ex_fs =
     \<lparr>fs_listdir = (\<lambda>d. if d = ''/p/2020'' then [''20200315_plk.nc'']
                        else if d = ''/o/2020''
                        then [''20200315_opt.nc'', ''20200315_0bad.nc'', ''20200316_opt.nc'']
                        else []),
      fs_open = [''/p/2020/20200315_plk.nc'' \<mapsto> ex_ds,
                 ''/o/2020/20200315_opt.nc'' \<mapsto> ex_ds_optics,
                 ''/o/2020/20200316_opt.nc'' \<mapsto> ex_ds_optics]\<rparr>"

definition ex_table :: "sample list" where
  "ex_table = [ex_sample_next, ex_sample, ex_sample_far]"

text \<open>The plankton file of 2020-03-15 replaced by a dataset without a latitude axis.\<close>

definition ex_fs_noaxes :: filesystem where
  "ex_fs_noaxes =
     ex_fs\<lparr>fs_open := [''/p/2020/20200315_plk.nc'' \<mapsto> ex_ds\<lparr>ds_lat := None\<rparr>]\<rparr>"

text \<open>
  Both products are asked for a variable named CHL; the plankton directory is empty and
  the second product reads the directory that holds the file with CHL.
\<close>

definition ex_args_collide :: args where
  "ex_args_collide =
     \<lparr>plankton_base_dir = ''/none'', optics_base_dir = Some ''/p'', tol_deg = 0.05,
      plankton_vars = [''CHL''], optics_vars = [''CHL'']\<rparr>"

definition ex_state0 :: run_state where
  "ex_state0 = \<lparr>rs_cells = Map.empty, rs_log = [], rs_opened = []\<rparr>"

section \<open>Nearest index: the two paths\<close>

lemma first_min_unique: "first_min xs i \<Longrightarrow> first_min xs k \<Longrightarrow> i = k"
  unfolding first_min_def by (metis linorder_neqE_nat not_less)

lemma argmin_scan_cases:
  "(argmin_scan xs i bi bv = bi \<and> (\<forall>x\<in>set xs. bv \<le> x)) \<or>
   (\<exists>k<length xs. argmin_scan xs i bi bv = i + k \<and> xs ! k < bv \<and>
        (\<forall>x\<in>set xs. xs ! k \<le> x) \<and> (\<forall>j<k. xs ! k < xs ! j))"
proof (induction xs arbitrary: i bi bv)
  case Nil
  then show ?case by simp
next
  case (Cons x xs)
  show ?case
  proof (cases "x < bv")
    case True
    from Cons.IH [of "Suc i" i x] show ?thesis
    proof
      assume a: "argmin_scan xs (Suc i) i x = i \<and> (\<forall>y\<in>set xs. x \<le> y)"
      have "\<exists>k<length (x # xs). argmin_scan (x # xs) i bi bv = i + k \<and> (x # xs) ! k < bv \<and>
        (\<forall>y\<in>set (x # xs). (x # xs) ! k \<le> y) \<and> (\<forall>j<k. (x # xs) ! k < (x # xs) ! j)"
        by (rule exI [of _ 0]) (use True a in auto)
      then show ?thesis ..
    next
      assume "\<exists>k<length xs. argmin_scan xs (Suc i) i x = Suc i + k \<and> xs ! k < x \<and>
        (\<forall>y\<in>set xs. xs ! k \<le> y) \<and> (\<forall>j<k. xs ! k < xs ! j)"
      then obtain k where k: "k < length xs" "argmin_scan xs (Suc i) i x = Suc i + k" "xs ! k < x"
        "\<forall>y\<in>set xs. xs ! k \<le> y" "\<forall>j<k. xs ! k < xs ! j" by blast
      have "\<exists>k<length (x # xs). argmin_scan (x # xs) i bi bv = i + k \<and> (x # xs) ! k < bv \<and>
        (\<forall>y\<in>set (x # xs). (x # xs) ! k \<le> y) \<and> (\<forall>j<k. (x # xs) ! k < (x # xs) ! j)"
        by (rule exI [of _ "Suc k"]) (use True k in \<open>auto simp: less_Suc_eq_0_disj\<close>)
      then show ?thesis ..
    qed
  next
    case False
    from Cons.IH [of "Suc i" bi bv] show ?thesis
    proof
      assume "argmin_scan xs (Suc i) bi bv = bi \<and> (\<forall>y\<in>set xs. bv \<le> y)"
      then show ?thesis using False by auto
    next
      assume "\<exists>k<length xs. argmin_scan xs (Suc i) bi bv = Suc i + k \<and> xs ! k < bv \<and>
        (\<forall>y\<in>set xs. xs ! k \<le> y) \<and> (\<forall>j<k. xs ! k < xs ! j)"
      then obtain k where k: "k < length xs" "argmin_scan xs (Suc i) bi bv = Suc i + k" "xs ! k < bv"
        "\<forall>y\<in>set xs. xs ! k \<le> y" "\<forall>j<k. xs ! k < xs ! j" by blast
      have "\<exists>k<length (x # xs). argmin_scan (x # xs) i bi bv = i + k \<and> (x # xs) ! k < bv \<and>
        (\<forall>y\<in>set (x # xs). (x # xs) ! k \<le> y) \<and> (\<forall>j<k. (x # xs) ! k < (x # xs) ! j)"
        by (rule exI [of _ "Suc k"]) (use False k in \<open>auto simp: less_Suc_eq_0_disj\<close>)
      then show ?thesis ..
    qed
  qed
qed

lemma np_argmin_first_min:
  assumes "xs \<noteq> []"
  shows "\<exists>i. np_argmin xs = Inr i \<and> first_min xs i"
proof -
  from assms obtain x ys where xs: "xs = x # ys" by (cases xs) auto
  from argmin_scan_cases [of ys 1 0 x] show ?thesis
  proof
    assume "argmin_scan ys 1 0 x = 0 \<and> (\<forall>y\<in>set ys. x \<le> y)"
    then show ?thesis unfolding xs first_min_def
      by (auto simp: less_Suc_eq_0_disj)
  next
    assume "\<exists>k<length ys. argmin_scan ys 1 0 x = 1 + k \<and> ys ! k < x \<and>
        (\<forall>y\<in>set ys. ys ! k \<le> y) \<and> (\<forall>j<k. ys ! k < ys ! j)"
    then obtain k where k: "k < length ys" "argmin_scan ys 1 0 x = 1 + k" "ys ! k < x"
        "\<forall>y\<in>set ys. ys ! k \<le> y" "\<forall>j<k. ys ! k < ys ! j" by blast
    then show ?thesis unfolding xs first_min_def
      by (auto simp: less_Suc_eq_0_disj)
  qed
qed

lemma np_diff_sorted: "list_all (\<lambda>d. 0 \<le> d) (np_diff arr) \<longleftrightarrow> sorted arr"
proof (induction arr rule: induct_list012)
  case 1 show ?case by (simp add: np_diff_def)
next
  case (2 x) show ?case by (simp add: np_diff_def)
next
  case (3 x y zs)
  then show ?case by (fastforce simp: np_diff_def)
qed

lemma bsearch_left_unfold_lt:
  "lo < hi \<Longrightarrow> arr ! (lo + (hi - lo) div 2) < key \<Longrightarrow>
   bsearch_left arr key lo hi = bsearch_left arr key (lo + (hi - lo) div 2 + 1) hi"
  by (subst bsearch_left.simps) (simp add: Let_def)

lemma bsearch_left_unfold_ge:
  "lo < hi \<Longrightarrow> \<not> arr ! (lo + (hi - lo) div 2) < key \<Longrightarrow>
   bsearch_left arr key lo hi = bsearch_left arr key lo (lo + (hi - lo) div 2)"
  by (subst bsearch_left.simps) (simp add: Let_def)

lemma bsearch_left_unfold_done:
  "\<not> lo < hi \<Longrightarrow> bsearch_left arr key lo hi = lo"
  by (subst bsearch_left.simps) simp

lemma bsearch_left_spec:
  "sorted arr \<Longrightarrow> lo \<le> hi \<Longrightarrow> hi \<le> length arr \<Longrightarrow>
   (\<forall>j<lo. arr ! j < key) \<Longrightarrow> (\<forall>j. hi \<le> j \<and> j < length arr \<longrightarrow> key \<le> arr ! j) \<Longrightarrow>
   bs_post arr key lo hi (bsearch_left arr key lo hi)"
proof (induction arr key lo hi rule: bsearch_left.induct)
  case (1 arr key lo hi)
  define mid where "mid = lo + (hi - lo) div 2"
  show ?case
  proof (cases "lo < hi")
    case False
    then have "bsearch_left arr key lo hi = lo" by (rule bsearch_left_unfold_done)
    moreover have "lo = hi" using False "1.prems"(2) by simp
    ultimately show ?thesis using "1.prems"(4,5) unfolding bs_post_def by simp
  next
    case True
    then have mid: "lo \<le> mid" "mid < hi" unfolding mid_def by auto
    show ?thesis
    proof (cases "arr ! mid < key")
      case lt: True
      have below: "\<forall>j<mid + 1. arr ! j < key"
      proof (intro allI impI)
        fix j assume "j < mid + 1"
        then have "j \<le> mid" by simp
        moreover have "mid < length arr" using mid "1.prems"(3) by simp
        ultimately have "arr ! j \<le> arr ! mid" using "1.prems"(1) by (rule_tac sorted_nth_mono)
        with lt show "arr ! j < key" by simp
      qed
      have le: "mid + 1 \<le> hi" using mid by simp
      have "bs_post arr key (mid + 1) hi (bsearch_left arr key (mid + 1) hi)"
        using "1.IH"(1) [OF True mid_def lt "1.prems"(1) le "1.prems"(3) below "1.prems"(5)] .
      moreover have "bsearch_left arr key lo hi = bsearch_left arr key (mid + 1) hi"
        using bsearch_left_unfold_lt [OF True, of arr key] lt unfolding mid_def by simp
      ultimately show ?thesis using mid unfolding bs_post_def by simp
    next
      case ge: False
      have above: "\<forall>j. mid \<le> j \<and> j < length arr \<longrightarrow> key \<le> arr ! j"
      proof (intro allI impI)
        fix j assume j: "mid \<le> j \<and> j < length arr"
        then have "arr ! mid \<le> arr ! j" using "1.prems"(1) by (rule_tac sorted_nth_mono) auto
        with ge show "key \<le> arr ! j" by simp
      qed
      have le: "mid \<le> length arr" using mid "1.prems"(3) by simp
      have "bs_post arr key lo mid (bsearch_left arr key lo mid)"
        using "1.IH"(2) [OF True mid_def ge "1.prems"(1) mid(1) le "1.prems"(4) above] .
      moreover have "bsearch_left arr key lo hi = bsearch_left arr key lo mid"
        using bsearch_left_unfold_ge [OF True, of arr key] ge unfolding mid_def by simp
      ultimately show ?thesis using mid unfolding bs_post_def by simp
    qed
  qed
qed

lemma searchsorted_spec:
  assumes "sorted arr"
  shows "searchsorted arr v \<le> length arr"
    and "\<forall>j<searchsorted arr v. arr ! j < v"
    and "\<forall>j. searchsorted arr v \<le> j \<and> j < length arr \<longrightarrow> v \<le> arr ! j"
  using bsearch_left_spec [OF assms, of 0 "length arr" v] unfolding searchsorted_def bs_post_def by auto

lemma fast_path_cases [consumes 2, case_names lo hi right left]:
  assumes s: "sorted arr" and ne: "arr \<noteq> []"
  obtains (lo) "searchsorted arr v = 0" "nearest_index_try arr v = Inr 0"
  | (hi) "searchsorted arr v = length arr" "nearest_index_try arr v = Inr (length arr - 1)"
  | (right) "0 < searchsorted arr v" "searchsorted arr v < length arr"
      "\<bar>arr ! searchsorted arr v - v\<bar> < \<bar>arr ! (searchsorted arr v - 1) - v\<bar>"
      "nearest_index_try arr v = Inr (searchsorted arr v)"
  | (left) "0 < searchsorted arr v" "searchsorted arr v < length arr"
      "\<not> \<bar>arr ! searchsorted arr v - v\<bar> < \<bar>arr ! (searchsorted arr v - 1) - v\<bar>"
      "nearest_index_try arr v = Inr (searchsorted arr v - 1)"
proof -
  have le: "searchsorted arr v \<le> length arr" using searchsorted_spec(1) [OF s] .
  have m: "list_all (\<lambda>d. 0 \<le> d) (np_diff arr)" using s by (simp add: np_diff_sorted)
  show thesis
  proof (cases "searchsorted arr v = 0")
    case True
    then show thesis using m by (intro lo) (simp_all add: nearest_index_try_def)
  next
    case nz: False
    show thesis
    proof (cases "searchsorted arr v = length arr")
      case True
      then show thesis using m nz by (intro hi) (simp_all add: nearest_index_try_def)
    next
      case False
      with le have lt: "searchsorted arr v < length arr" by simp
      show thesis
      proof (cases "\<bar>arr ! searchsorted arr v - v\<bar> < \<bar>arr ! (searchsorted arr v - 1) - v\<bar>")
        case True
        then show thesis using m nz lt by (intro right) (simp_all add: nearest_index_try_def)
      next
        case False
        then show thesis using m nz lt by (intro left) (simp_all add: nearest_index_try_def)
      qed
    qed
  qed
qed

lemma fast_path_nearest:
  assumes s: "sorted arr" and ne: "arr \<noteq> []"
  shows "\<exists>i. nearest_index_try arr v = Inr i \<and> i < length arr \<and>
             (\<forall>j<length arr. \<bar>arr ! i - v\<bar> \<le> \<bar>arr ! j - v\<bar>)"
proof -
  let ?k = "searchsorted arr v"
  have below: "\<And>j. j < ?k \<Longrightarrow> arr ! j < v" using searchsorted_spec(2) [OF s] by blast
  have above: "\<And>j. ?k \<le> j \<Longrightarrow> j < length arr \<Longrightarrow> v \<le> arr ! j"
    using searchsorted_spec(3) [OF s] by blast
  have mono: "\<And>a b. a \<le> b \<Longrightarrow> b < length arr \<Longrightarrow> arr ! a \<le> arr ! b"
    using s by (rule sorted_nth_mono)
  have n: "0 < length arr" using ne by simp
  from s ne show ?thesis
  proof (cases rule: fast_path_cases [where v = v])
    case lo
    have "\<bar>arr ! 0 - v\<bar> \<le> \<bar>arr ! j - v\<bar>" if "j < length arr" for j
      using above [of 0] above [of j] mono [of 0 j] that lo(1) n by simp
    then show ?thesis using lo n by simp
  next
    case hi
    have "\<bar>arr ! (length arr - 1) - v\<bar> \<le> \<bar>arr ! j - v\<bar>" if "j < length arr" for j
      using below [of j] below [of "length arr - 1"] mono [of j "length arr - 1"] that hi(1) n
      by simp
    then show ?thesis using hi n by simp
  next
    case right
    have "\<bar>arr ! ?k - v\<bar> \<le> \<bar>arr ! j - v\<bar>" if "j < length arr" for j
    proof (cases "j < ?k")
      case True
      then have "j \<le> ?k - 1" by simp
      then have "arr ! j \<le> arr ! (?k - 1)" using mono [of j "?k - 1"] right(2) by simp
      moreover have "arr ! (?k - 1) < v" using below [of "?k - 1"] right(1) by simp
      moreover have "arr ! j < v" using below [OF True] .
      ultimately show ?thesis using right(3) by linarith
    next
      case False
      then have "arr ! ?k \<le> arr ! j" using mono [of ?k j] that by simp
      moreover have "v \<le> arr ! ?k" using above [of ?k] right(2) by simp
      ultimately show ?thesis by linarith
    qed
    then show ?thesis using right by simp
  next
    case left
    have "\<bar>arr ! (?k - 1) - v\<bar> \<le> \<bar>arr ! j - v\<bar>" if "j < length arr" for j
    proof (cases "j < ?k")
      case True
      then have "j \<le> ?k - 1" by simp
      then have "arr ! j \<le> arr ! (?k - 1)" using mono [of j "?k - 1"] left(2) by simp
      moreover have "arr ! (?k - 1) < v" using below [of "?k - 1"] left(1) by simp
      ultimately show ?thesis by linarith
    next
      case False
      then have "arr ! ?k \<le> arr ! j" using mono [of ?k j] that by simp
      moreover have "v \<le> arr ! ?k" using above [of ?k] left(2) by simp
      ultimately show ?thesis using left(3) by linarith
    qed
    then show ?thesis using left by simp
  qed
qed

lemma linear_nearest_first_min:
  assumes "arr \<noteq> []"
  shows "\<exists>i. linear_nearest arr v = Inr i \<and> first_min (map (\<lambda>a. \<bar>a - v\<bar>) arr) i"
  using np_argmin_first_min [of "map (\<lambda>a. \<bar>a - v\<bar>) arr"] assms
  unfolding linear_nearest_def by simp

lemma linear_nearest_nearest:
  assumes "arr \<noteq> []"
  shows "\<exists>i. linear_nearest arr v = Inr i \<and> i < length arr \<and>
             (\<forall>j<length arr. \<bar>arr ! i - v\<bar> \<le> \<bar>arr ! j - v\<bar>)"
proof -
  from linear_nearest_first_min [OF assms, of v] obtain i where
    i: "linear_nearest arr v = Inr i" "first_min (map (\<lambda>a. \<bar>a - v\<bar>) arr) i" by blast
  from i(2) have "i < length arr" "\<forall>j<length arr. \<bar>arr ! i - v\<bar> \<le> \<bar>arr ! j - v\<bar>"
    unfolding first_min_def by auto
  with i(1) show ?thesis by blast
qed

lemma nearest_index_nearest:
  assumes "arr \<noteq> []"
  shows "\<exists>i. nearest_index arr v = Inr i \<and> i < length arr \<and>
             (\<forall>j<length arr. \<bar>arr ! i - v\<bar> \<le> \<bar>arr ! j - v\<bar>)"
proof (cases "sorted arr")
  case True
  from fast_path_nearest [OF True assms, of v] show ?thesis
    unfolding nearest_index_def by auto
next
  case False
  then have "nearest_index_try arr v = linear_nearest arr v"
    by (simp add: nearest_index_try_def np_diff_sorted)
  with linear_nearest_nearest [OF assms, of v] show ?thesis
    unfolding nearest_index_def by auto
qed

lemma nearest_index_strict_refines:
  assumes st: "sorted_wrt (<) arr" and ne: "arr \<noteq> []"
  shows "nearest_index arr v = linear_nearest arr v"
proof -
  let ?k = "searchsorted arr v"
  let ?d = "map (\<lambda>a. \<bar>a - v\<bar>) arr"
  have s: "sorted arr" using st by (rule strict_sorted_imp_sorted)
  have below: "\<And>j. j < ?k \<Longrightarrow> arr ! j < v" using searchsorted_spec(2) [OF s] by blast
  have smono: "\<And>a b. a < b \<Longrightarrow> b < length arr \<Longrightarrow> arr ! a < arr ! b"
    using st by (rule sorted_wrt_nth_less)
  from fast_path_nearest [OF s ne, of v] obtain r where
    r: "nearest_index_try arr v = Inr r" "r < length arr"
       "\<forall>j<length arr. \<bar>arr ! r - v\<bar> \<le> \<bar>arr ! j - v\<bar>" by blast
  have strict: "\<bar>arr ! r - v\<bar> < \<bar>arr ! j - v\<bar>" if jr: "j < r" for j
    using s ne
  proof (cases rule: fast_path_cases [where v = v])
    case lo
    with r(1) jr show ?thesis by simp
  next
    case hi
    with r(1) have "r = length arr - 1" by simp
    then have "arr ! j < arr ! r" "arr ! r < v"
      using smono [of j r] jr r(2) below [of r] hi(1) by simp_all
    then show ?thesis by linarith
  next
    case right
    with r(1) have rk: "r = ?k" by simp
    have "j \<le> ?k - 1" using jr rk by simp
    then have "arr ! j \<le> arr ! (?k - 1)"
      using sorted_nth_mono [OF s, of j "?k - 1"] right(2) by simp
    moreover have "arr ! (?k - 1) < v" using below [of "?k - 1"] right(1) by simp
    ultimately show ?thesis using right(3) unfolding rk by linarith
  next
    case left
    with r(1) have rk: "r = ?k - 1" by simp
    have "arr ! j < arr ! r" using smono [of j r] jr r(2) by simp
    moreover have "arr ! r < v" using below [of r] rk left(1) by simp
    ultimately show ?thesis by linarith
  qed
  have fm: "first_min ?d r" unfolding first_min_def using r(2,3) strict by simp
  from linear_nearest_first_min [OF ne, of v] obtain i where
    i: "linear_nearest arr v = Inr i" "first_min ?d i" by blast
  from first_min_unique [OF fm i(2)] r(1) i(1) show ?thesis by (simp add: nearest_index_def)
qed

section \<open>Longitude arithmetic\<close>



lemma pymod_numeral_ex: "pymod (-170) 360 = 190"
  unfolding pymod_def by simp

lemma circ_ex: "circ_abs_diff (-179.98) 179.97 = 0.05"
  unfolding circ_abs_diff_def pymod_def by simp

lemma lon180_ex: "lon_to_180 190 = -170"
  unfolding lon_to_180_def pymod_def by simp

lemma adapt_ex: "adapt_query_lon [0, 359.75] (-170) = Inr 190"
  unfolding adapt_query_lon_def lon_to_360_def pymod_def by simp

lemma fold_min_Min: "fold min xs (x::real) = Min (set (x # xs))"
  by (simp only: Min.set_eq_fold)

lemma fold_max_Max: "fold max xs (x::real) = Max (set (x # xs))"
  by (simp only: Max.set_eq_fold)

lemma adapt_query_lon_eq:
  assumes "lon_vals \<noteq> []"
  shows "adapt_query_lon lon_vals q =
           Inr (if (\<forall>x\<in>set lon_vals. 0 \<le> x) \<and> 180 < Max (set lon_vals)
                then lon_to_360 q else lon_to_180 q)"
proof -
  from assms obtain x xs where l: "lon_vals = x # xs" by (cases lon_vals) auto
  have mn: "np_nanmin lon_vals = Inr (Min (set lon_vals))"
    unfolding l by (simp only: np_nanmin.simps fold_min_Min)
  have mx: "np_nanmax lon_vals = Inr (Max (set lon_vals))"
    unfolding l by (simp only: np_nanmax.simps fold_max_Max)
  have "0 \<le> Min (set lon_vals) \<longleftrightarrow> (\<forall>x\<in>set lon_vals. 0 \<le> x)"
    using assms by (simp add: Min_ge_iff)
  then show ?thesis unfolding adapt_query_lon_def mn mx by simp
qed





section \<open>Processing one day\<close>

lemma fold_upd_map:
  "fold (\<lambda>v res. res(v \<mapsto> f v)) vs m = (\<lambda>x. if x \<in> set vs then Some (f x) else m x)"
  by (induction vs arbitrary: m) (auto simp: fun_eq_iff)

lemma all_nan_eq: "all_nan vs = (\<lambda>x. if x \<in> set vs then Some NaN else None)"
  unfolding all_nan_def by (simp add: fold_upd_map)

lemma process_rows_other:
  "process_rows ds la lo ti vs tol rows results = Inr out \<Longrightarrow> ridx \<notin> fst ` set rows \<Longrightarrow>
   out ridx = results ridx"
proof (induction rows arbitrary: results)
  case Nil
  then show ?case by simp
next
  case (Cons a rows)
  obtain i r where a: "a = (i, r)" by (cases a)
  from Cons.prems(1) obtain res where
    res: "process_row ds la lo ti vs tol r = Inr res"
    and rest: "process_rows ds la lo ti vs tol rows (results(i \<mapsto> res)) = Inr out"
    unfolding a by (auto split: sum.splits)
  from Cons.prems(2) have "ridx \<noteq> i" "ridx \<notin> fst ` set rows" unfolding a by auto
  with Cons.IH [OF rest] show ?case by simp
qed


lemma process_rows_dom:
  "process_rows ds la lo ti vs tol rows results = Inr out \<Longrightarrow>
   dom out = dom results \<union> fst ` set rows"
proof (induction rows arbitrary: results)
  case Nil
  then show ?case by simp
next
  case (Cons a rows)
  obtain i r' where a: "a = (i, r')" by (cases a)
  from Cons.prems(1) obtain res where
    rest: "process_rows ds la lo ti vs tol rows (results(i \<mapsto> res)) = Inr out"
    unfolding a by (auto split: sum.splits)
  from Cons.IH [OF rest] show ?case unfolding a by auto
qed

lemma process_one_day_Inr:
  assumes "process_one_day ds rows vs tol = Inr results"
  obtains la lo ti where "ds_lat ds = Some la" "ds_lon ds = Some lo" "rows \<noteq> []"
    "compute_time_index ds (s_np_datetime (snd (hd rows))) = Inr ti"
    "process_rows ds la lo ti vs tol rows Map.empty = Inr results"
  using assms unfolding process_one_day_def
  by (auto split: option.splits list.splits sum.splits)

lemma process_row_Inr:
  assumes "process_row ds la lo ti vs tol r = Inr res"
  obtains qlon ilat ilon where
    "adapt_query_lon lo (s_lon r) = Inr qlon"
    "nearest_index la (s_lat r) = Inr ilat" "nearest_index lo qlon = Inr ilon"
    "ilat < length la" "ilon < length lo"
    "res = (if \<bar>la ! ilat - s_lat r\<bar> \<le> tol \<and> circ_abs_diff (lo ! ilon) qlon \<le> tol
            then (\<lambda>v. if v \<in> set vs then Some (extract_var ds ilat ilon ti v) else None)
            else (\<lambda>v. if v \<in> set vs then Some NaN else None))"
  using assms unfolding process_row_def
  by (auto simp: Let_def all_nan_eq fold_upd_map not_less not_le split: sum.splits if_splits)

lemmas run_simps = nearest_index_def nearest_index_try_def np_diff_def searchsorted_def
  bsearch_left_unfold_lt bsearch_left_unfold_ge bsearch_left_unfold_done linear_nearest_def
  adapt_query_lon_def lon_to_180_def lon_to_360_def pymod_def circ_abs_diff_def
  process_one_day_def process_row_def compute_time_index_def all_nan_def extract_var_def
  LAT_NAME_def LON_NAME_def TIME_NAME_def Let_def

lemma ex_day_eval:
  "process_one_day ex_ds ex_rows [''CHL''] 0.05 =
     Inr ex_results"
  by (simp add: run_simps ex_ds_def ex_rows_def ex_sample_def ex_sample_far_def grid_var_def
      ex_results_def)




lemma gate_examples:
  "circ_abs_diff (- 179.98) 179.97 = 0.05 \<and>
   \<bar>[40.9, 41.0, 41.1 :: real] ! 1 - s_lat ex_sample\<bar> = 0.05 \<and>
   \<bar>[40.9, 41.0, 41.1 :: real] ! 2 - s_lat ex_sample_far\<bar> = 0.06"
  by (simp add: circ_abs_diff_def pymod_def ex_sample_def ex_sample_far_def)

lemma compute_time_index_cases:
  "(ds_time ds = [] \<longrightarrow> compute_time_index ds d = Inr None) \<and>
   (length (ds_time ds) = 1 \<longrightarrow> compute_time_index ds d = Inr (Some 0)) \<and>
   (1 < length (ds_time ds) \<longrightarrow>
      (\<exists>i. compute_time_index ds d = Inr (Some i) \<and>
           first_min (map (\<lambda>t. \<bar>t - d * ns_per_day\<bar>) (ds_time ds)) i))"
proof (intro conjI impI)
  assume "ds_time ds = []"
  then show "compute_time_index ds d = Inr None" by (simp add: compute_time_index_def)
next
  assume "length (ds_time ds) = 1"
  then show "compute_time_index ds d = Inr (Some 0)" by (simp add: compute_time_index_def)
next
  assume l: "1 < length (ds_time ds)"
  then have "map (\<lambda>t. \<bar>t - d * ns_per_day\<bar>) (ds_time ds) \<noteq> []" by auto
  from np_argmin_first_min [OF this] obtain i where
    "np_argmin (map (\<lambda>t. \<bar>t - d * ns_per_day\<bar>) (ds_time ds)) = Inr i"
    "first_min (map (\<lambda>t. \<bar>t - d * ns_per_day\<bar>) (ds_time ds)) i" by blast
  moreover from l have "ds_time ds \<noteq> []" "length (ds_time ds) \<noteq> 1" by auto
  ultimately show "\<exists>i. compute_time_index ds d = Inr (Some i) \<and>
           first_min (map (\<lambda>t. \<bar>t - d * ns_per_day\<bar>) (ds_time ds)) i"
    by (simp add: compute_time_index_def)
qed


section \<open>Candidate files\<close>
















section \<open>The loop over the day-groups\<close>

lemma process_row_total:
  assumes "la \<noteq> []" "lo \<noteq> []"
  shows "\<exists>res. process_row ds la lo ti vs tol r = Inr res"
proof -
  from adapt_query_lon_eq [OF assms(2), of "s_lon r"] obtain qlon where
    q: "adapt_query_lon lo (s_lon r) = Inr qlon" by blast
  from nearest_index_nearest [OF assms(1), of "s_lat r"] obtain ilat where
    a: "nearest_index la (s_lat r) = Inr ilat" "ilat < length la" by blast
  from nearest_index_nearest [OF assms(2), of qlon] obtain ilon where
    b: "nearest_index lo qlon = Inr ilon" "ilon < length lo" by blast
  show ?thesis unfolding process_row_def using q a b by (simp add: Let_def)
qed

lemma process_rows_total:
  assumes "la \<noteq> []" "lo \<noteq> []"
  shows "\<exists>out. process_rows ds la lo ti vs tol rows results = Inr out"
proof (induction rows arbitrary: results)
  case Nil
  then show ?case by simp
next
  case (Cons a rows)
  obtain i r where a: "a = (i, r)" by (cases a)
  from process_row_total [OF assms, of ds ti vs tol r] obtain res where
    res: "process_row ds la lo ti vs tol r = Inr res" by blast
  from Cons.IH [of "results(i \<mapsto> res)"] obtain out where
    "process_rows ds la lo ti vs tol rows (results(i \<mapsto> res)) = Inr out" by blast
  with res have "process_rows ds la lo ti vs tol (a # rows) results = Inr out"
    unfolding a by (simp del: fun_upd_apply)
  then show ?case by blast
qed

lemma compute_time_index_total: "\<exists>ti. compute_time_index ds d = Inr ti"
proof -
  consider "ds_time ds = []" | "length (ds_time ds) = 1" | "1 < length (ds_time ds)"
    by (cases "ds_time ds") (auto simp: less_Suc_eq_0_disj)
  then show ?thesis using compute_time_index_cases [of ds d] by cases blast+
qed

lemma process_one_day_total:
  assumes "has_axes ds" "rows \<noteq> []"
  shows "\<exists>results. process_one_day ds rows vs tol = Inr results"
proof -
  from assms(1) obtain la lo where ax: "ds_lat ds = Some la" "la \<noteq> []" "ds_lon ds = Some lo" "lo \<noteq> []"
    unfolding has_axes_def by (auto split: option.splits)
  from assms(2) obtain i0 r0 rest where rows: "rows = (i0, r0) # rest" by (cases rows) auto
  from compute_time_index_total [of ds "s_np_datetime r0"] obtain ti where
    ti: "compute_time_index ds (s_np_datetime r0) = Inr ti" by blast
  from process_rows_total [OF ax(2,4), of ds ti vs tol rows Map.empty] obtain out where
    "process_rows ds la lo ti vs tol rows Map.empty = Inr out" by blast
  then show ?thesis unfolding process_one_day_def using ax ti rows by simp
qed

lemma open_first_Some: "open_first fs paths = Some (p, ds) \<Longrightarrow> p \<in> set paths \<and> fs_open fs p = Some ds"
  by (induction paths) (auto split: option.splits)

lemma product_step_Inr [consumes 1, case_names unavailable merged]:
  assumes "product_step fs product base_dir vars out tol gi (y, m, d) rows st = Inr st'"
  obtains
    (unavailable) "open_first fs (file_candidates_for_date fs base_dir y m d) = None"
      "rs_cells st' = rs_cells st" "rs_opened st' = rs_opened st"
      "length (rs_log st') = length (rs_log st) + 1"
  | (merged) path ds day_results where
      "open_first fs (file_candidates_for_date fs base_dir y m d) = Some (path, ds)"
      "process_one_day ds rows (filter (\<lambda>v. ds_data_vars ds v \<noteq> None) vars) tol = Inr day_results"
      "rs_cells st' = write_day out vars (map fst rows) day_results (rs_cells st)"
      "rs_opened st' = rs_opened st"
      "length (rs_log st') \<le> length (rs_log st) + 1"
proof (cases "open_first fs (file_candidates_for_date fs base_dir y m d)")
  case None
  with assms have "st' = st\<lparr>rs_log := rs_log st @ [NoFileFound gi product]\<rparr> \<or>
                   st' = st\<lparr>rs_log := rs_log st @ [CouldNotOpen gi product]\<rparr>"
    unfolding product_step_def by (auto simp: Let_def split: if_splits)
  then have "rs_cells st' = rs_cells st" "rs_opened st' = rs_opened st"
      "length (rs_log st') = length (rs_log st) + 1" by auto
  with None show ?thesis by (rule unavailable)
next
  case (Some pd)
  obtain path ds where pd: "pd = (path, ds)" by (cases pd)
  from Some pd have ne: "file_candidates_for_date fs base_dir y m d \<noteq> []" by auto
  let ?present = "filter (\<lambda>v. ds_data_vars ds v \<noteq> None) vars"
  from assms Some pd ne obtain day_results where
    r: "process_one_day ds rows ?present tol = Inr day_results"
    unfolding product_step_def by (auto simp: Let_def split: sum.splits)
  from assms Some pd ne r have
    "rs_cells st' = write_day out vars (map fst rows) day_results (rs_cells st)"
    "rs_opened st' = rs_opened st"
    "length (rs_log st') \<le> length (rs_log st) + 1"
    unfolding product_step_def by (auto simp: Let_def split: if_splits)
  with Some pd r show ?thesis by (intro merged) auto
qed

lemma product_step_total:
  assumes ok: "\<forall>path ds. fs_open fs path = Some ds \<longrightarrow> has_axes ds" and ne: "rows \<noteq> []"
  shows "\<exists>st'. product_step fs product base_dir vars out tol gi (y, m, d) rows st = Inr st'"
proof (cases "open_first fs (file_candidates_for_date fs base_dir y m d)")
  case None
  then show ?thesis unfolding product_step_def by (simp add: Let_def)
next
  case (Some pd)
  obtain path ds where pd: "pd = (path, ds)" by (cases pd)
  from Some pd have c: "file_candidates_for_date fs base_dir y m d \<noteq> []" by auto
  from open_first_Some [OF Some [unfolded pd]] ok have "has_axes ds" by blast
  from process_one_day_total [OF this ne] obtain results where
    "process_one_day ds rows (filter (\<lambda>v. ds_data_vars ds v \<noteq> None) vars) tol = Inr results"
    by blast
  with Some pd c show ?thesis unfolding product_step_def by (simp add: Let_def)
qed

lemma day_step_Inr:
  assumes "day_step a fs (gi, (y, m, d), rows) st = Inr st'"
  obtains st1 st2 where
    "product_step fs ''plankton'' (plankton_base_dir a) (plankton_vars a) (\<lambda>v. v) (tol_deg a)
       gi (y, m, d) rows st = Inr st1"
    "(case optics_base_dir a of
        None \<Rightarrow> st2 = st1
      | Some dir \<Rightarrow>
          if dir \<noteq> [] then
            product_step fs ''optics'' dir (optics_vars a) out_name_optics (tol_deg a)
              gi (y, m, d) rows st1 = Inr st2
          else st2 = st1)"
    "st' = st2\<lparr>rs_log := rs_log st2 @ [DayDone gi (length rows)]\<rparr>"
  using assms unfolding day_step_def
  by (auto split: sum.splits option.splits if_splits)

lemma day_step_opened_log:
  assumes "day_step a fs (gi, (y, m, d), rows) st = Inr st'"
  shows "rs_opened st' = rs_opened st \<and> length (rs_log st') \<le> length (rs_log st) + 3"
proof -
  from assms obtain st1 st2 where
    p: "product_step fs ''plankton'' (plankton_base_dir a) (plankton_vars a) (\<lambda>v. v) (tol_deg a)
       gi (y, m, d) rows st = Inr st1"
    and o: "(case optics_base_dir a of
        None \<Rightarrow> st2 = st1
      | Some dir \<Rightarrow>
          if dir \<noteq> [] then
            product_step fs ''optics'' dir (optics_vars a) out_name_optics (tol_deg a)
              gi (y, m, d) rows st1 = Inr st2
          else st2 = st1)"
    and e: "st' = st2\<lparr>rs_log := rs_log st2 @ [DayDone gi (length rows)]\<rparr>"
    by (rule day_step_Inr)
  from p have 1: "rs_opened st1 = rs_opened st \<and> length (rs_log st1) \<le> length (rs_log st) + 1"
    by (cases rule: product_step_Inr) auto
  have 2: "rs_opened st2 = rs_opened st1 \<and> length (rs_log st2) \<le> length (rs_log st1) + 1"
  proof (cases "optics_base_dir a")
    case None
    with o show ?thesis by simp
  next
    case (Some dir)
    show ?thesis
    proof (cases "dir = []")
      case True
      with o Some show ?thesis by simp
    next
      case False
      with o Some have "product_step fs ''optics'' dir (optics_vars a) out_name_optics (tol_deg a)
              gi (y, m, d) rows st1 = Inr st2" by simp
      then show ?thesis by (cases rule: product_step_Inr) auto
    qed
  qed
  from 1 2 e show ?thesis by simp
qed

lemma day_step_total:
  assumes ok: "\<forall>path ds. fs_open fs path = Some ds \<longrightarrow> has_axes ds" and ne: "rows \<noteq> []"
  shows "\<exists>st'. day_step a fs (gi, (y, m, d), rows) st = Inr st'"
proof -
  from product_step_total [OF ok ne] obtain st1 where
    p: "product_step fs ''plankton'' (plankton_base_dir a) (plankton_vars a) (\<lambda>v. v) (tol_deg a)
       gi (y, m, d) rows st = Inr st1" by blast
  show ?thesis
  proof (cases "optics_base_dir a")
    case None
    with p show ?thesis unfolding day_step_def by simp
  next
    case (Some dir)
    show ?thesis
    proof (cases "dir = []")
      case True
      with p Some show ?thesis unfolding day_step_def by simp
    next
      case False
      from product_step_total [OF ok ne] obtain st2 where
        "product_step fs ''optics'' dir (optics_vars a) out_name_optics (tol_deg a)
              gi (y, m, d) rows st1 = Inr st2" by blast
      with p Some False show ?thesis unfolding day_step_def by simp
    qed
  qed
qed

lemma main_loop_append:
  "main_loop a fs (pre @ rest) st =
     (case main_loop a fs pre st of Inl x \<Rightarrow> Inl x | Inr st1 \<Rightarrow> main_loop a fs rest st1)"
  by (induction pre arbitrary: st) (auto split: sum.splits)

lemma main_loop_opened_log:
  "main_loop a fs gs st = Inr st' \<Longrightarrow>
   rs_opened st' = rs_opened st \<and> length (rs_log st') \<le> length (rs_log st) + 3 * length gs"
proof (induction gs arbitrary: st)
  case Nil
  then show ?case by simp
next
  case (Cons g gs)
  obtain gi y m d rows where g: "g = (gi, (y, m, d), rows)" by (cases g) auto
  from Cons.prems obtain st1 where
    s: "day_step a fs (gi, (y, m, d), rows) st = Inr st1" "main_loop a fs gs st1 = Inr st'"
    unfolding g by (auto split: sum.splits)
  from day_step_opened_log [OF s(1)] Cons.IH [OF s(2)] show ?case by simp
qed

lemma main_loop_total:
  assumes ok: "\<forall>path ds. fs_open fs path = Some ds \<longrightarrow> has_axes ds"
  shows "(\<forall>g\<in>set gs. snd (snd g) \<noteq> []) \<Longrightarrow> \<exists>st'. main_loop a fs gs st = Inr st'"
proof (induction gs arbitrary: st)
  case Nil
  then show ?case by simp
next
  case (Cons g gs)
  obtain gi y m d rows where g: "g = (gi, (y, m, d), rows)" by (cases g) auto
  from Cons.prems have ne: "rows \<noteq> []" unfolding g by simp
  from day_step_total [OF ok ne] obtain st1 where
    "day_step a fs (gi, (y, m, d), rows) st = Inr st1" by blast
  moreover from Cons.IH [of st1] Cons.prems obtain st' where "main_loop a fs gs st1 = Inr st'"
    by auto
  ultimately show ?case unfolding g by simp
qed

lemma groupby_date_rows:
  assumes "(k, rs) \<in> set (groupby_date rows)"
  shows "rs = filter (\<lambda>(ridx, r). date_key r = k) (enumerate 0 rows)" and "k \<in> date_key ` set rows"
    and "rs \<noteq> []"
proof -
  from assms show rs: "rs = filter (\<lambda>(ridx, r). date_key r = k) (enumerate 0 rows)"
    and k: "k \<in> date_key ` set rows" unfolding groupby_date_def by auto
  from k obtain r where r: "r \<in> set rows" "date_key r = k" by auto
  then obtain i where i: "i < length rows" "rows ! i = r" by (auto simp: in_set_conv_nth)
  then have "(i, r) \<in> set (enumerate 0 rows)" by (auto simp: in_set_enumerate_eq)
  with r(2) have "(i, r) \<in> set rs" unfolding rs by simp
  then show "rs \<noteq> []" by auto
qed

lemma enumerate_sndD: "g \<in> set (enumerate n xs) \<Longrightarrow> snd g \<in> set xs"
  by (induction xs arbitrary: n) auto

lemma main_total:
  assumes ok: "\<forall>path ds. fs_open fs path = Some ds \<longrightarrow> has_axes ds"
  shows "\<exists>st. main a fs rows cells0 = Inr st"
proof -
  have "\<forall>g\<in>set (enumerate 1 (groupby_date rows)). snd (snd g) \<noteq> []"
  proof
    fix g assume "g \<in> set (enumerate 1 (groupby_date rows))"
    then have "snd g \<in> set (groupby_date rows)" by (rule enumerate_sndD)
    then show "snd (snd g) \<noteq> []" using groupby_date_rows(3) [of "fst (snd g)" "snd (snd g)" rows]
      by simp
  qed
  from main_loop_total [OF ok this] show ?thesis unfolding main_def by (simp add: Let_def)
qed

lemma grp: "groupby_date ex_table =
   [((2020, 3, 15), [(1, ex_sample), (2, ex_sample_far)]), ((2020, 3, 16), [(0, ex_sample_next)])]"
  by (simp add: groupby_date_def date_key_def ex_table_def ex_sample_def ex_sample_far_def ex_sample_next_def enumerate_eq_zip)

lemma noaxes_candidates:
  "file_candidates_for_date ex_fs_noaxes ''/p'' 2020 3 15 = [''/p/2020/20200315_plk.nc'']"
  by (simp add: file_candidates_for_date_def fmt_0d_def py_str.simps digit_char_def path_join_def
     glob_magic_def glob_plain_def ex_fs_def ex_fs_noaxes_def ishidden_def Let_def)

lemma noaxes_day: "ds_lat ds = None \<Longrightarrow> process_one_day ds rows vars tol = Inl KeyError"
  by (simp add: process_one_day_def)

lemma noaxes_step:
  "product_step ex_fs_noaxes ''plankton'' ''/p'' [''CHL'', ''flags''] out tol gi (2020, 3, 15) rows st =
     Inl (KeyError, st\<lparr>rs_opened := ''/p/2020/20200315_plk.nc'' # rs_opened st,
                         rs_log := rs_log st @ [MissingVars gi ''plankton'' [''flags'']]\<rparr>)"
proof -
  have o: "open_first ex_fs_noaxes [''/p/2020/20200315_plk.nc''] =
             Some (''/p/2020/20200315_plk.nc'', ex_ds\<lparr>ds_lat := None\<rparr>)"
    by (simp add: ex_fs_noaxes_def)
  show ?thesis
    by (simp add: product_step_def noaxes_candidates o noaxes_day ex_ds_def Let_def
          del: open_first.simps)
qed

lemma noaxes_main:
  "main ex_args ex_fs_noaxes ex_table Map.empty =
     Inl (KeyError,
          \<lparr>rs_cells = prepare_columns ex_args Map.empty,
           rs_log = [Processing 2, MissingVars 1 ''plankton'' [''flags'']],
           rs_opened = [''/p/2020/20200315_plk.nc'']\<rparr>)"
  by (simp add: main_def grp enumerate_eq_zip day_step_def ex_args_def noaxes_step)

lemma ex_fs_has_axes: "\<forall>path ds. fs_open ex_fs path = Some ds \<longrightarrow> has_axes ds"
  by (auto simp: ex_fs_def has_axes_def ex_ds_def ex_ds_optics_def split: if_splits)

lemma day_step_opened:
  assumes "day_step a fs g st = Inr st'"
  shows "rs_opened st' = rs_opened st"
proof -
  obtain gi y m d rows where g: "g = (gi, (y, m, d), rows)" by (cases g) auto
  from day_step_opened_log [OF assms [unfolded g]] show ?thesis by simp
qed

lemma product_step_opened:
  assumes "product_step fs product base_dir vars out tol gi day rows st = Inr st'"
  shows "rs_opened st' = rs_opened st"
proof -
  obtain y m d where d: "day = (y, m, d)" by (cases day) auto
  from assms [unfolded d] show ?thesis by (cases rule: product_step_Inr) auto
qed

section \<open>The value columns\<close>

lemma extract_var_ok: "value_or_nodata (extract_var ds ilat ilon ti v)"
proof -
  have "value_or_nodata (if np_isfinite x then x else NaN)" for x by (cases x) simp_all
  then show ?thesis unfolding extract_var_def
    by (simp add: Let_def split: option.splits)
qed

lemma process_row_values:
  assumes "process_row ds la lo ti vs tol r = Inr res"
  shows "dom res = set vs \<and> (\<forall>v x. res v = Some x \<longrightarrow> value_or_nodata x)"
proof -
  from assms obtain qlon ilat ilon where
    "res = (if \<bar>la ! ilat - s_lat r\<bar> \<le> tol \<and> circ_abs_diff (lo ! ilon) qlon \<le> tol
            then (\<lambda>v. if v \<in> set vs then Some (extract_var ds ilat ilon ti v) else None)
            else (\<lambda>v. if v \<in> set vs then Some NaN else None))"
    by (rule process_row_Inr)
  then show ?thesis using extract_var_ok by (auto simp: dom_def split: if_splits)
qed

lemma process_rows_label:
  "process_rows ds la lo ti vs tol rows results = Inr out \<Longrightarrow> ridx \<in> fst ` set rows \<Longrightarrow>
   \<exists>res r. out ridx = Some res \<and> process_row ds la lo ti vs tol r = Inr res"
proof (induction rows arbitrary: results)
  case Nil
  then show ?case by simp
next
  case (Cons a rows)
  obtain i r where a: "a = (i, r)" by (cases a)
  from Cons.prems(1) obtain res where
    res: "process_row ds la lo ti vs tol r = Inr res"
    and rest: "process_rows ds la lo ti vs tol rows (results(i \<mapsto> res)) = Inr out"
    unfolding a by (auto split: sum.splits)
  show ?case
  proof (cases "ridx \<in> fst ` set rows")
    case True
    from Cons.IH [OF rest True] show ?thesis .
  next
    case False
    with Cons.prems(2) have "ridx = i" unfolding a by simp
    with process_rows_other [OF rest False] res show ?thesis by auto
  qed
qed

lemma process_one_day_values:
  assumes "process_one_day ds rows vs tol = Inr results"
  shows "dom results = fst ` set rows"
    and "results ridx = Some res \<Longrightarrow> dom res = set vs \<and> (\<forall>v x. res v = Some x \<longrightarrow> value_or_nodata x)"
proof -
  from assms obtain la lo ti where
    rows: "process_rows ds la lo ti vs tol rows Map.empty = Inr results"
    by (rule process_one_day_Inr)
  from process_rows_dom [OF rows] show d: "dom results = fst ` set rows" by simp
  assume r: "results ridx = Some res"
  then have "ridx \<in> fst ` set rows" using d by auto
  from process_rows_label [OF rows this] r obtain r' where
    "process_row ds la lo ti vs tol r' = Inr res" by auto
  then show "dom res = set vs \<and> (\<forall>v x. res v = Some x \<longrightarrow> value_or_nodata x)"
    by (rule process_row_values)
qed


















lemma main_Inr:
  assumes "main a fs rows cells0 = Inr st"
  shows "main_loop a fs (enumerate 1 (groupby_date rows))
           \<lparr>rs_cells = prepare_columns a cells0,
            rs_log = [Processing (length (groupby_date rows))], rs_opened = []\<rparr> = Inr st"
  using assms unfolding main_def by (simp add: Let_def)

lemma cellv_df_at_set:
  "cellv (df_at_set cells r c' x) c i = (if c = c' \<and> i = r then x else cellv cells c i)"
  unfolding cellv_def df_at_set_def by (auto split: option.splits)

lemma cellv_prepare_column: "cellv (prepare_column c' cells) c i = cellv cells c i"
  unfolding cellv_def prepare_column_def by (auto split: option.splits)

lemma cellv_fold_prepare: "cellv (fold (\<lambda>v. prepare_column (f v)) vs cells) c i = cellv cells c i"
  by (induction vs arbitrary: cells) (simp_all add: cellv_prepare_column)

lemma cellv_prepare_columns: "cellv (prepare_columns a cells) c i = cellv cells c i"
  unfolding prepare_columns_def
  using cellv_fold_prepare [of "\<lambda>v. v"] by (simp add: cellv_fold_prepare)

lemma write_row_other:
  "i \<noteq> r \<or> c \<notin> out ` set vars \<Longrightarrow> cellv (write_row out vars r vals cells) c i = cellv cells c i"
proof (induction vars arbitrary: cells)
  case Nil
  then show ?case by (simp add: write_row_def)
next
  case (Cons v vars)
  from Cons.prems have p: "i \<noteq> r \<or> c \<notin> out ` set vars" and q: "\<not> (c = out v \<and> i = r)" by auto
  have "cellv (write_row out (v # vars) r vals cells) c i =
        cellv (write_row out vars r vals (df_at_set cells r (out v) (values_get vals v))) c i"
    by (simp add: write_row_def)
  also have "\<dots> = cellv (df_at_set cells r (out v) (values_get vals v)) c i"
    by (rule Cons.IH [OF p])
  also have "\<dots> = cellv cells c i" using q by (auto simp: cellv_df_at_set)
  finally show ?case .
qed

lemma write_row_hit:
  "inj_on out (set vars) \<Longrightarrow> v \<in> set vars \<Longrightarrow>
   cellv (write_row out vars r vals cells) (out v) r = values_get vals v"
proof (induction vars arbitrary: cells)
  case Nil
  then show ?case by simp
next
  case (Cons w vars)
  have unf: "write_row out (w # vars) r vals cells =
        write_row out vars r vals (df_at_set cells r (out w) (values_get vals w))"
    by (simp add: write_row_def)
  from Cons.prems(1) have inj: "inj_on out (set vars)" by (simp add: inj_on_def)
  show ?case
  proof (cases "v \<in> set vars")
    case True
    from Cons.IH [OF inj True] show ?thesis unfolding unf .
  next
    case False
    with Cons.prems(2) have vw: "v = w" by simp
    have "out v \<notin> out ` set vars"
    proof
      assume "out v \<in> out ` set vars"
      then obtain u where u: "u \<in> set vars" "out u = out v" by auto
      with Cons.prems have "u = v" by (auto simp: inj_on_def)
      with u(1) False show False by simp
    qed
    then have "cellv (write_row out vars r vals (df_at_set cells r (out w) (values_get vals w)))
                 (out v) r = cellv (df_at_set cells r (out w) (values_get vals w)) (out v) r"
      by (intro write_row_other) simp
    also have "\<dots> = values_get vals v" unfolding vw by (simp add: cellv_df_at_set)
    finally show ?thesis unfolding unf .
  qed
qed

lemma write_day_unfold:
  "write_day out vars (j # ridxs) day_results cells =
     write_day out vars ridxs day_results
       (case day_results j of Some vals \<Rightarrow> write_row out vars j vals cells | None \<Rightarrow> cells)"
  by (simp add: write_day_def)

lemma write_day_other:
  "i \<notin> set ridxs \<or> c \<notin> out ` set vars \<Longrightarrow>
   cellv (write_day out vars ridxs day_results cells) c i = cellv cells c i"
proof (induction ridxs arbitrary: cells)
  case Nil
  then show ?case by (simp add: write_day_def)
next
  case (Cons j ridxs)
  from Cons.prems have p: "i \<notin> set ridxs \<or> c \<notin> out ` set vars"
    and q: "i \<noteq> j \<or> c \<notin> out ` set vars" by auto
  let ?cells = "case day_results j of Some vals \<Rightarrow> write_row out vars j vals cells | None \<Rightarrow> cells"
  have "cellv ?cells c i = cellv cells c i"
    using write_row_other [OF q] by (cases "day_results j") simp_all
  with Cons.IH [OF p, of ?cells] show ?case unfolding write_day_unfold by simp
qed

lemma write_day_hit:
  "inj_on out (set vars) \<Longrightarrow> v \<in> set vars \<Longrightarrow> i \<in> set ridxs \<Longrightarrow> day_results i = Some vals \<Longrightarrow>
   cellv (write_day out vars ridxs day_results cells) (out v) i = values_get vals v"
proof (induction ridxs arbitrary: cells)
  case Nil
  then show ?case by simp
next
  case (Cons j ridxs)
  let ?cells = "case day_results j of Some vals \<Rightarrow> write_row out vars j vals cells | None \<Rightarrow> cells"
  show ?case
  proof (cases "i \<in> set ridxs")
    case True
    from Cons.IH [OF Cons.prems(1,2) True Cons.prems(4), of ?cells] show ?thesis
      unfolding write_day_unfold .
  next
    case False
    with Cons.prems(3) have ij: "i = j" by simp
    have "cellv (write_day out vars ridxs day_results ?cells) (out v) i = cellv ?cells (out v) i"
      using False by (intro write_day_other) simp
    also have "\<dots> = values_get vals v"
      using Cons.prems(4) write_row_hit [OF Cons.prems(1,2), of i vals cells] unfolding ij by simp
    finally show ?thesis unfolding write_day_unfold .
  qed
qed

lemma product_step_cell_other:
  assumes "product_step fs product base_dir vars out tol gi day rows st = Inr st'"
    and "i \<notin> fst ` set rows \<or> c \<notin> out ` set vars"
  shows "cellv (rs_cells st') c i = cellv (rs_cells st) c i"
proof -
  obtain y m d where d: "day = (y, m, d)" by (cases day) auto
  from assms(1) [unfolded d] show ?thesis
  proof (cases rule: product_step_Inr)
    case unavailable
    then show ?thesis by simp
  next
    case (merged path ds day_results)
    from assms(2) have "i \<notin> set (map fst rows) \<or> c \<notin> out ` set vars" by simp
    from write_day_other [OF this] merged(3) show ?thesis by simp
  qed
qed

lemma product_step_cell:
  assumes step: "product_step fs product base_dir vars out tol gi day rows st = Inr st'"
    and inj: "inj_on out (set vars)" and v: "v \<in> set vars" and i: "i \<in> fst ` set rows"
  shows "cellv (rs_cells st') (out v) i =
           (case product_value fs base_dir vars tol day rows i v of
              Some x \<Rightarrow> x
            | None \<Rightarrow> cellv (rs_cells st) (out v) i)"
proof -
  obtain y m d where d: "day = (y, m, d)" by (cases day) auto
  from step [unfolded d] show ?thesis
  proof (cases rule: product_step_Inr)
    case unavailable
    then show ?thesis unfolding product_value_def d by simp
  next
    case (merged path ds day_results)
    from process_one_day_values(1) [OF merged(2)] i obtain vals where
      vals: "day_results i = Some vals" by auto
    from i have "i \<in> set (map fst rows)" by simp
    with inj v have "cellv (write_day out vars (map fst rows) day_results (rs_cells st)) (out v) i
                      = values_get vals v"
      using vals by (rule write_day_hit)
    with merged(3) have "cellv (rs_cells st') (out v) i = values_get vals v" by simp
    moreover have "product_value fs base_dir vars tol day rows i v = Some (values_get vals v)"
      unfolding product_value_def d using merged(1,2) vals by simp
    ultimately show ?thesis by simp
  qed
qed

lemma day_step_cell_other:
  assumes "day_step a fs (gi, day, rows) st = Inr st'" and "i \<notin> fst ` set rows"
  shows "cellv (rs_cells st') c i = cellv (rs_cells st) c i"
proof -
  obtain y m d where d: "day = (y, m, d)" by (cases day) auto
  from assms(1) [unfolded d] obtain st1 st2 where
    p: "product_step fs ''plankton'' (plankton_base_dir a) (plankton_vars a) (\<lambda>v. v) (tol_deg a)
       gi (y, m, d) rows st = Inr st1"
    and o: "(case optics_base_dir a of
        None \<Rightarrow> st2 = st1
      | Some dir \<Rightarrow>
          if dir \<noteq> [] then
            product_step fs ''optics'' dir (optics_vars a) out_name_optics (tol_deg a)
              gi (y, m, d) rows st1 = Inr st2
          else st2 = st1)"
    and e: "st' = st2\<lparr>rs_log := rs_log st2 @ [DayDone gi (length rows)]\<rparr>"
    by (rule day_step_Inr)
  have 1: "cellv (rs_cells st1) c i = cellv (rs_cells st) c i"
    using product_step_cell_other [OF p] assms(2) by blast
  have 2: "cellv (rs_cells st2) c i = cellv (rs_cells st1) c i"
  proof (cases "optics_base_dir a")
    case None
    with o show ?thesis by simp
  next
    case (Some dir)
    show ?thesis
    proof (cases "dir = []")
      case True
      with o Some show ?thesis by simp
    next
      case False
      with o Some have "product_step fs ''optics'' dir (optics_vars a) out_name_optics
          (tol_deg a) gi (y, m, d) rows st1 = Inr st2" by simp
      from product_step_cell_other [OF this] assms(2) show ?thesis by blast
    qed
  qed
  from 1 2 e show ?thesis by simp
qed

lemma day_step_cell_plankton:
  assumes step: "day_step a fs (gi, day, rows) st = Inr st'"
    and dis: "set (plankton_vars a) \<inter> out_name_optics ` set (optics_vars a) = {}"
    and v: "v \<in> set (plankton_vars a)" and i: "i \<in> fst ` set rows"
  shows "cellv (rs_cells st') v i =
           (case product_value fs (plankton_base_dir a) (plankton_vars a) (tol_deg a) day rows i v of
              Some x \<Rightarrow> x
            | None \<Rightarrow> cellv (rs_cells st) v i)"
proof -
  obtain y m d where d: "day = (y, m, d)" by (cases day) auto
  from step [unfolded d] obtain st1 st2 where
    p: "product_step fs ''plankton'' (plankton_base_dir a) (plankton_vars a) (\<lambda>v. v) (tol_deg a)
       gi (y, m, d) rows st = Inr st1"
    and o: "(case optics_base_dir a of
        None \<Rightarrow> st2 = st1
      | Some dir \<Rightarrow>
          if dir \<noteq> [] then
            product_step fs ''optics'' dir (optics_vars a) out_name_optics (tol_deg a)
              gi (y, m, d) rows st1 = Inr st2
          else st2 = st1)"
    and e: "st' = st2\<lparr>rs_log := rs_log st2 @ [DayDone gi (length rows)]\<rparr>"
    by (rule day_step_Inr)
  have inj: "inj_on (\<lambda>v::string. v) (set (plankton_vars a))" by (simp add: inj_on_def)
  from product_step_cell [OF p inj v i]
  have 1: "cellv (rs_cells st1) v i =
           (case product_value fs (plankton_base_dir a) (plankton_vars a) (tol_deg a) day rows i v of
              Some x \<Rightarrow> x
            | None \<Rightarrow> cellv (rs_cells st) v i)" unfolding d .
  have nv: "v \<notin> out_name_optics ` set (optics_vars a)" using dis v by blast
  have 2: "cellv (rs_cells st2) v i = cellv (rs_cells st1) v i"
  proof (cases "optics_base_dir a")
    case None
    with o show ?thesis by simp
  next
    case (Some dir)
    show ?thesis
    proof (cases "dir = []")
      case True
      with o Some show ?thesis by simp
    next
      case False
      with o Some have "product_step fs ''optics'' dir (optics_vars a) out_name_optics
          (tol_deg a) gi (y, m, d) rows st1 = Inr st2" by simp
      from product_step_cell_other [OF this] nv show ?thesis by blast
    qed
  qed
  from 1 2 e show ?thesis by simp
qed

lemma day_step_cell_optics:
  assumes step: "day_step a fs (gi, day, rows) st = Inr st'"
    and dis: "set (plankton_vars a) \<inter> out_name_optics ` set (optics_vars a) = {}"
    and inj: "inj_on out_name_optics (set (optics_vars a))"
    and v: "v \<in> set (optics_vars a)" and i: "i \<in> fst ` set rows"
  shows "cellv (rs_cells st') (out_name_optics v) i =
           (case optics_base_dir a of
              None \<Rightarrow> cellv (rs_cells st) (out_name_optics v) i
            | Some dir \<Rightarrow>
                if dir \<noteq> [] then
                  (case product_value fs dir (optics_vars a) (tol_deg a) day rows i v of
                     Some x \<Rightarrow> x
                   | None \<Rightarrow> cellv (rs_cells st) (out_name_optics v) i)
                else cellv (rs_cells st) (out_name_optics v) i)"
proof -
  obtain y m d where d: "day = (y, m, d)" by (cases day) auto
  from step [unfolded d] obtain st1 st2 where
    p: "product_step fs ''plankton'' (plankton_base_dir a) (plankton_vars a) (\<lambda>v. v) (tol_deg a)
       gi (y, m, d) rows st = Inr st1"
    and o: "(case optics_base_dir a of
        None \<Rightarrow> st2 = st1
      | Some dir \<Rightarrow>
          if dir \<noteq> [] then
            product_step fs ''optics'' dir (optics_vars a) out_name_optics (tol_deg a)
              gi (y, m, d) rows st1 = Inr st2
          else st2 = st1)"
    and e: "st' = st2\<lparr>rs_log := rs_log st2 @ [DayDone gi (length rows)]\<rparr>"
    by (rule day_step_Inr)
  have "out_name_optics v \<notin> (\<lambda>v. v) ` set (plankton_vars a)" using dis v by auto
  with product_step_cell_other [OF p]
  have 1: "cellv (rs_cells st1) (out_name_optics v) i = cellv (rs_cells st) (out_name_optics v) i"
    by blast
  show ?thesis
  proof (cases "optics_base_dir a")
    case None
    with o 1 e show ?thesis by simp
  next
    case (Some dir)
    show ?thesis
    proof (cases "dir = []")
      case True
      with o Some 1 e show ?thesis by simp
    next
      case False
      with o Some have q: "product_step fs ''optics'' dir (optics_vars a) out_name_optics
          (tol_deg a) gi (y, m, d) rows st1 = Inr st2" by simp
      from product_step_cell [OF q inj v i] 1 e Some False show ?thesis unfolding d
        by (simp split: option.split)
    qed
  qed
qed

lemma main_loop_cell_other:
  "main_loop a fs gs st = Inr st' \<Longrightarrow> (\<forall>g\<in>set gs. i \<notin> fst ` set (snd (snd g))) \<Longrightarrow>
   cellv (rs_cells st') c i = cellv (rs_cells st) c i"
proof (induction gs arbitrary: st)
  case Nil
  then show ?case by simp
next
  case (Cons g gs)
  obtain gi day rows where g: "g = (gi, day, rows)" by (cases g) auto
  from Cons.prems(1) obtain st1 where
    s: "day_step a fs (gi, day, rows) st = Inr st1" "main_loop a fs gs st1 = Inr st'"
    unfolding g by (auto split: sum.splits)
  from Cons.prems(2) have "i \<notin> fst ` set rows" "\<forall>g\<in>set gs. i \<notin> fst ` set (snd (snd g))"
    unfolding g by auto
  with day_step_cell_other [OF s(1)] Cons.IH [OF s(2)] show ?case by simp
qed

lemma group_labels:
  "j \<in> fst ` set (filter (\<lambda>(j, r). date_key r = k) (enumerate 0 rows)) \<longleftrightarrow>
   j < length rows \<and> date_key (rows ! j) = k"
proof
  assume "j \<in> fst ` set (filter (\<lambda>(j, r). date_key r = k) (enumerate 0 rows))"
  then obtain r where "(j, r) \<in> set (enumerate 0 rows)" "date_key r = k" by auto
  then show "j < length rows \<and> date_key (rows ! j) = k" by (auto simp: in_set_enumerate_eq)
next
  assume a: "j < length rows \<and> date_key (rows ! j) = k"
  then have "(j, rows ! j) \<in> set (enumerate 0 rows)" by (simp add: in_set_enumerate_eq)
  with a have "(j, rows ! j) \<in> set (filter (\<lambda>(j, r). date_key r = k) (enumerate 0 rows))" by simp
  then show "j \<in> fst ` set (filter (\<lambda>(j, r). date_key r = k) (enumerate 0 rows))" by force
qed

lemma day_rows_of_label: "i < length rows \<Longrightarrow> i \<in> fst ` set (day_rows_of rows i)"
  using group_labels [of i "date_key (rows ! i)" rows] unfolding day_rows_of_def by blast

lemma groupby_date_split:
  assumes i: "i < length rows"
  shows "\<exists>pre post. groupby_date rows = pre @ (date_key (rows ! i), day_rows_of rows i) # post \<and>
           (\<forall>g\<in>set pre \<union> set post. i \<notin> fst ` set (snd g))"
proof -
  let ?k = "date_key (rows ! i)"
  let ?f = "\<lambda>k. (k, filter (\<lambda>(ridx, r). date_key r = k) (enumerate 0 rows))"
  let ?ks = "sort (remdups (map date_key rows))"
  have "?k \<in> set ?ks" using i by simp
  then have "\<exists>ks1 ks2. ?ks = ks1 @ ?k # ks2" by (rule split_list)
  then obtain ks1 ks2 where ks: "?ks = ks1 @ ?k # ks2" by blast
  have "distinct ?ks" by simp
  then have nk: "?k \<notin> set ks1" "?k \<notin> set ks2" unfolding ks by auto
  have g: "groupby_date rows = map ?f ks1 @ ?f ?k # map ?f ks2"
    unfolding groupby_date_def ks by simp
  have "i \<notin> fst ` set (snd g)" if "g \<in> set (map ?f ks1) \<union> set (map ?f ks2)" for g
  proof -
    from that obtain k' where k': "k' \<in> set ks1 \<union> set ks2" "g = ?f k'" by auto
    with nk have "k' \<noteq> ?k" by auto
    then show ?thesis unfolding k'(2) using group_labels [of i k' rows] by simp
  qed
  with g show ?thesis unfolding day_rows_of_def by blast
qed

lemma main_loop_split:
  assumes "main_loop a fs (pre @ g # post) st0 = Inr st"
  obtains st1 st2 where "main_loop a fs pre st0 = Inr st1" "day_step a fs g st1 = Inr st2"
    "main_loop a fs post st2 = Inr st"
proof -
  from assms obtain st1 where 1: "main_loop a fs pre st0 = Inr st1"
    and r: "main_loop a fs (g # post) st1 = Inr st"
    by (auto simp: main_loop_append split: sum.splits)
  from r obtain st2 where "day_step a fs g st1 = Inr st2" "main_loop a fs post st2 = Inr st"
    by (auto split: sum.splits)
  with 1 show thesis by (rule that)
qed

lemma main_loop_cell_group:
  assumes run: "main_loop a fs (enumerate n (groupby_date rows)) st0 = Inr st"
    and i: "i < length rows"
  shows "\<exists>gi st1 st2.
           day_step a fs (gi, date_key (rows ! i), day_rows_of rows i) st1 = Inr st2 \<and>
           (\<forall>c. cellv (rs_cells st1) c i = cellv (rs_cells st0) c i) \<and>
           (\<forall>c. cellv (rs_cells st) c i = cellv (rs_cells st2) c i)"
proof -
  from groupby_date_split [OF i] obtain pre post where
    g: "groupby_date rows = pre @ (date_key (rows ! i), day_rows_of rows i) # post"
    and o: "\<forall>g\<in>set pre \<union> set post. i \<notin> fst ` set (snd g)" by blast
  let ?A = "enumerate n pre"
  let ?B = "enumerate (Suc (n + length pre)) post"
  let ?g = "(n + length pre, date_key (rows ! i), day_rows_of rows i)"
  have e: "enumerate n (groupby_date rows) = ?A @ ?g # ?B"
    unfolding g by (simp add: enumerate_append_eq)
  from run [unfolded e] obtain st1 st2 where
    s: "main_loop a fs ?A st0 = Inr st1" "day_step a fs ?g st1 = Inr st2"
       "main_loop a fs ?B st2 = Inr st"
    by (rule main_loop_split)
  have oa: "\<forall>g\<in>set ?A. i \<notin> fst ` set (snd (snd g))"
  proof
    fix g assume "g \<in> set ?A"
    then have "snd g \<in> set pre" by (rule enumerate_sndD)
    with o show "i \<notin> fst ` set (snd (snd g))" by blast
  qed
  have ob: "\<forall>g\<in>set ?B. i \<notin> fst ` set (snd (snd g))"
  proof
    fix g assume "g \<in> set ?B"
    then have "snd g \<in> set post" by (rule enumerate_sndD)
    with o show "i \<notin> fst ` set (snd (snd g))" by blast
  qed
  have "\<forall>c. cellv (rs_cells st1) c i = cellv (rs_cells st0) c i"
    using main_loop_cell_other [OF s(1) oa] by blast
  moreover have "\<forall>c. cellv (rs_cells st) c i = cellv (rs_cells st2) c i"
    using main_loop_cell_other [OF s(3) ob] by blast
  ultimately show ?thesis using s(2) by blast
qed

lemma main_cell_plankton:
  assumes run: "main a fs rows cells0 = Inr st"
    and dis: "set (plankton_vars a) \<inter> out_name_optics ` set (optics_vars a) = {}"
    and i: "i < length rows" and v: "v \<in> set (plankton_vars a)"
  shows "cellv (rs_cells st) v i =
           (case product_value fs (plankton_base_dir a) (plankton_vars a) (tol_deg a)
                   (date_key (rows ! i)) (day_rows_of rows i) i v of
              Some x \<Rightarrow> x
            | None \<Rightarrow> cellv cells0 v i)"
proof -
  from main_loop_cell_group [OF main_Inr [OF run] i] obtain gi st1 st2 where
    d: "day_step a fs (gi, date_key (rows ! i), day_rows_of rows i) st1 = Inr st2"
    and b: "\<forall>c. cellv (rs_cells st1) c i = cellv (prepare_columns a cells0) c i"
    and e: "\<forall>c. cellv (rs_cells st) c i = cellv (rs_cells st2) c i" by auto
  from day_step_cell_plankton [OF d dis v day_rows_of_label [OF i]] b e
  show ?thesis by (simp add: cellv_prepare_columns split: option.split)
qed

lemma main_cell_optics:
  assumes run: "main a fs rows cells0 = Inr st"
    and dis: "set (plankton_vars a) \<inter> out_name_optics ` set (optics_vars a) = {}"
    and inj: "inj_on out_name_optics (set (optics_vars a))"
    and i: "i < length rows" and v: "v \<in> set (optics_vars a)"
  shows "cellv (rs_cells st) (out_name_optics v) i =
           (case optics_base_dir a of
              None \<Rightarrow> cellv cells0 (out_name_optics v) i
            | Some dir \<Rightarrow>
                if dir \<noteq> [] then
                  (case product_value fs dir (optics_vars a) (tol_deg a)
                          (date_key (rows ! i)) (day_rows_of rows i) i v of
                     Some x \<Rightarrow> x
                   | None \<Rightarrow> cellv cells0 (out_name_optics v) i)
                else cellv cells0 (out_name_optics v) i)"
proof -
  from main_loop_cell_group [OF main_Inr [OF run] i] obtain gi st1 st2 where
    d: "day_step a fs (gi, date_key (rows ! i), day_rows_of rows i) st1 = Inr st2"
    and b: "\<forall>c. cellv (rs_cells st1) c i = cellv (prepare_columns a cells0) c i"
    and e: "\<forall>c. cellv (rs_cells st) c i = cellv (rs_cells st2) c i" by auto
  from day_step_cell_optics [OF d dis inj v day_rows_of_label [OF i]] b e
  show ?thesis by (simp add: cellv_prepare_columns split: option.split)
qed

lemma defaults_disjoint:
  "set DEFAULT_PLANKTON_VARS \<inter> out_name_optics ` set DEFAULT_OPTICS_VARS = {} \<and>
   inj_on out_name_optics (set DEFAULT_OPTICS_VARS)"
  by (simp add: DEFAULT_PLANKTON_VARS_def DEFAULT_OPTICS_VARS_def out_name_optics_def
      RENAME_OUT_def inj_on_def)

lemma out_name_optics_cases:
  "out_name_optics ''flags'' = ''flags_optics'' \<and> (v \<noteq> ''flags'' \<longrightarrow> out_name_optics v = v)"
  by (simp add: out_name_optics_def RENAME_OUT_def)

lemmas cand_simps = file_candidates_for_date_def fmt_0d_def py_str.simps digit_char_def
  path_join_def glob_magic_def glob_plain_def ishidden_def Let_def

lemma ex_table_days:
  "date_key (ex_table ! 0) = (2020, 3, 16) \<and> day_rows_of ex_table 0 = [(0, ex_sample_next)] \<and>
   date_key (ex_table ! 1) = (2020, 3, 15) \<and>
   day_rows_of ex_table 1 = [(1, ex_sample), (2, ex_sample_far)]"
  by (simp add: day_rows_of_def date_key_def ex_table_def ex_sample_def ex_sample_far_def
      ex_sample_next_def enumerate_eq_zip)

lemma ex_fs_candidates:
  "file_candidates_for_date ex_fs ''/p'' 2020 3 16 = []"
  "file_candidates_for_date ex_fs ''/o'' 2020 3 16 = [''/o/2020/20200316_opt.nc'']"
  "file_candidates_for_date ex_fs ''/p'' 2020 3 15 = [''/p/2020/20200315_plk.nc'']"
  "file_candidates_for_date ex_fs ''/o'' 2020 3 15 =
     [''/o/2020/20200315_0bad.nc'', ''/o/2020/20200315_opt.nc'']"
  "file_candidates_for_date ex_fs ''/none'' 2020 3 15 = []"
  by (simp_all add: cand_simps ex_fs_def)

lemma ex_fs_open_first:
  "open_first ex_fs [''/o/2020/20200316_opt.nc''] = Some (''/o/2020/20200316_opt.nc'', ex_ds_optics)"
  "open_first ex_fs [''/p/2020/20200315_plk.nc''] = Some (''/p/2020/20200315_plk.nc'', ex_ds)"
  "open_first ex_fs [''/o/2020/20200315_0bad.nc'', ''/o/2020/20200315_opt.nc''] =
     Some (''/o/2020/20200315_opt.nc'', ex_ds_optics)"
  by (simp_all add: ex_fs_def)

lemma ex_optics_present:
  "filter (\<lambda>v. ds_data_vars ex_ds_optics v \<noteq> None) [''BBP'', ''flags'', ''CDM''] =
     [''BBP'', ''flags'', ''CDM'']"
  by (simp add: ex_ds_optics_def ex_ds_def)

lemma ex_optics_day:
  "process_one_day ex_ds_optics [(0, ex_sample_next)] [''BBP'', ''flags'', ''CDM''] 0.05 =
     Inr [0 \<mapsto> [''BBP'' \<mapsto> Fin 5, ''flags'' \<mapsto> Fin 1, ''CDM'' \<mapsto> NaN]]"
  by (simp add: run_simps ex_ds_optics_def ex_ds_def ex_sample_next_def grid_var_def)

lemma ex_values:
  "product_value ex_fs ''/p'' [''CHL'', ''flags''] 0.05 (2020, 3, 16) [(0, ex_sample_next)] 0 v = None"
  "product_value ex_fs ''/o'' [''BBP'', ''flags'', ''CDM''] 0.05 (2020, 3, 16) [(0, ex_sample_next)] 0 v
     = Some (values_get [''BBP'' \<mapsto> Fin 5, ''flags'' \<mapsto> Fin 1, ''CDM'' \<mapsto> NaN] v)"
proof -
  show "product_value ex_fs ''/p'' [''CHL'', ''flags''] 0.05 (2020, 3, 16) [(0, ex_sample_next)] 0 v
          = None"
    by (simp add: product_value_def ex_fs_candidates)
  show "product_value ex_fs ''/o'' [''BBP'', ''flags'', ''CDM''] 0.05 (2020, 3, 16)
          [(0, ex_sample_next)] 0 v
     = Some (values_get [''BBP'' \<mapsto> Fin 5, ''flags'' \<mapsto> Fin 1, ''CDM'' \<mapsto> NaN] v)"
    unfolding product_value_def prod.case ex_fs_candidates ex_fs_open_first option.case
      ex_optics_present ex_optics_day sum.case
    by simp
qed

lemma ex_single_day:
  "process_one_day ex_ds [(0, ex_sample)] [''CHL''] 0.05 = Inr [0 \<mapsto> [''CHL'' \<mapsto> Fin 0.42]]"
  by (simp add: run_simps ex_ds_def ex_sample_def grid_var_def)

lemma ex_ds_present: "filter (\<lambda>v. ds_data_vars ex_ds v \<noteq> None) [''CHL''] = [''CHL'']"
  by (simp add: ex_ds_def)

lemma ex_collide_values:
  "product_value ex_fs ''/none'' [''CHL''] 0.05 (2020, 3, 15) [(0, ex_sample)] 0 ''CHL'' = None"
  "product_value ex_fs ''/p'' [''CHL''] 0.05 (2020, 3, 15) [(0, ex_sample)] 0 ''CHL'' =
     Some (Fin 0.42)"
proof -
  show "product_value ex_fs ''/none'' [''CHL''] 0.05 (2020, 3, 15) [(0, ex_sample)] 0 ''CHL'' = None"
    by (simp add: product_value_def ex_fs_candidates)
  show "product_value ex_fs ''/p'' [''CHL''] 0.05 (2020, 3, 15) [(0, ex_sample)] 0 ''CHL'' =
     Some (Fin 0.42)"
    unfolding product_value_def prod.case ex_fs_candidates ex_fs_open_first option.case
      ex_ds_present ex_single_day sum.case
    by (simp add: values_get_def)
qed

section \<open>Claims about the nearest-index lookup\<close>

text \<open>
  C10.  For every non-empty axis and every query value the nearest-index lookup returns
  (it never raises) an index within bounds, at which the distance to the query is
  minimal.  A query at or below every axis value resolves to the axis minimum and one at
  or above every axis value to the axis maximum; on a non-decreasing axis these are the
  boundary indices \<open>0\<close> and \<open>length arr - 1\<close>.  Nothing is rejected here: far-away
  queries are left to the tolerance gate.
\<close>

theorem nearest_index_total_in_bounds:
  assumes ne: "arr \<noteq> []"
  shows "\<exists>i. nearest_index arr v = Inr i \<and> i < length arr \<and>
           (\<forall>j<length arr. \<bar>arr ! i - v\<bar> \<le> \<bar>arr ! j - v\<bar>) \<and>
           ((\<forall>x\<in>set arr. v \<le> x) \<longrightarrow> arr ! i = Min (set arr)) \<and>
           ((\<forall>x\<in>set arr. x \<le> v) \<longrightarrow> arr ! i = Max (set arr)) \<and>
           (sorted arr \<and> (\<forall>x\<in>set arr. v \<le> x) \<longrightarrow> i = 0) \<and>
           (sorted arr \<and> (\<forall>x\<in>set arr. x < v) \<longrightarrow> i = length arr - 1)"
proof -
  from nearest_index_nearest [OF ne, of v] obtain i where
    i: "nearest_index arr v = Inr i" "i < length arr"
       "\<forall>j<length arr. \<bar>arr ! i - v\<bar> \<le> \<bar>arr ! j - v\<bar>" by blast
  have mem: "arr ! i \<in> set arr" using i(2) by simp
  have lo: "arr ! i = Min (set arr)" if b: "\<forall>x\<in>set arr. v \<le> x"
  proof (rule Min_eqI [symmetric])
    show "finite (set arr)" by simp
    show "arr ! i \<in> set arr" by (rule mem)
    fix y assume "y \<in> set arr"
    then obtain j where j: "j < length arr" "arr ! j = y" by (auto simp: in_set_conv_nth)
    have "v \<le> y" "v \<le> arr ! i" using b \<open>y \<in> set arr\<close> mem by auto
    with i(3) j show "arr ! i \<le> y" by fastforce
  qed
  have hi: "arr ! i = Max (set arr)" if b: "\<forall>x\<in>set arr. x \<le> v"
  proof (rule Max_eqI [symmetric])
    show "finite (set arr)" by simp
    show "arr ! i \<in> set arr" by (rule mem)
    fix y assume "y \<in> set arr"
    then obtain j where j: "j < length arr" "arr ! j = y" by (auto simp: in_set_conv_nth)
    have "y \<le> v" "arr ! i \<le> v" using b \<open>y \<in> set arr\<close> mem by auto
    with i(3) j show "y \<le> arr ! i" by fastforce
  qed
  have first: "i = 0" if s: "sorted arr" and b: "\<forall>x\<in>set arr. v \<le> x"
  proof -
    have "searchsorted arr v = 0"
    proof (rule ccontr)
      assume "searchsorted arr v \<noteq> 0"
      then have "0 < searchsorted arr v" by simp
      with searchsorted_spec(2) [OF s, of v] have "arr ! 0 < v" by blast
      moreover have "arr ! 0 \<in> set arr" using ne by simp
      ultimately show False using b by fastforce
    qed
    then have "nearest_index_try arr v = Inr 0"
      using s by (simp add: nearest_index_try_def np_diff_sorted)
    with i(1) show ?thesis by (simp add: nearest_index_def)
  qed
  have last: "i = length arr - 1" if s: "sorted arr" and b: "\<forall>x\<in>set arr. x < v"
  proof -
    have le: "searchsorted arr v \<le> length arr" using searchsorted_spec(1) [OF s] .
    have "searchsorted arr v = length arr"
    proof (rule ccontr)
      assume "searchsorted arr v \<noteq> length arr"
      with le have lt: "searchsorted arr v < length arr" by simp
      with searchsorted_spec(3) [OF s, of v] have "v \<le> arr ! searchsorted arr v" by blast
      moreover have "arr ! searchsorted arr v \<in> set arr" using lt by simp
      ultimately show False using b by fastforce
    qed
    then have "nearest_index_try arr v = Inr (length arr - 1)"
      using s ne by (simp add: nearest_index_try_def np_diff_sorted)
    with i(1) show ?thesis by (simp add: nearest_index_def)
  qed
  from i lo hi first last show ?thesis by blast
qed

theorem nearest_index_total_in_bounds_witness:
  "[10, 20, 30 :: real] \<noteq> [] \<and> nearest_index [10, 20, 30] 99 = Inr 2 \<and>
   nearest_index [10, 20, 30] (-5) = Inr 0 \<and> nearest_index [30, 10, 20] 99 = Inr 0"
proof -
  have ne: "[10, 20, 30 :: real] \<noteq> []" by simp
  have s: "sorted [10, 20, 30 :: real]" by simp
  from nearest_index_total_in_bounds [OF ne, of 99] s
  have a: "nearest_index [10, 20, 30] 99 = Inr 2" by auto
  from nearest_index_total_in_bounds [OF ne, of "-5"] s
  have b: "nearest_index [10, 20, 30] (-5) = Inr 0" by auto
  have ne': "[30, 10, 20 :: real] \<noteq> []" by simp
  from nearest_index_total_in_bounds [OF ne', of 99]
  obtain i where i: "nearest_index [30, 10, 20] 99 = Inr i" "i < 3"
     "[30, 10, 20 :: real] ! i = Max (set [30, 10, 20])" by auto
  from i(2) consider "i = 0" | "i = 1" | "i = 2" by linarith
  then have "i = 0" using i(3) by cases simp_all
  with i(1) a b ne show ?thesis by simp
qed

text \<open>
  C4.  On a non-decreasing axis the binary-search path should return the index the linear
  scan returns.  It does not when the axis repeats a value: for the axis \<open>[1, 2, 2]\<close>,
  which passes the monotonicity test, and the query \<open>5\<close>, the fast path returns the last
  index \<open>2\<close> while the linear scan returns the lowest index of the tie, \<open>1\<close>.  (On a
  strictly increasing axis the two paths agree, \<open>nearest_index_strict_refines\<close>.)
\<close>

theorem nearest_index_duplicate_axis:
  "list_all (\<lambda>d. 0 \<le> d) (np_diff [1, 2, 2]) \<and>
   nearest_index [1, 2, 2] 5 = Inr 2 \<and> linear_nearest [1, 2, 2] 5 = Inr 1"
  by (simp add: nearest_index_def nearest_index_try_def np_diff_def searchsorted_def
      bsearch_left_unfold_lt bsearch_left_unfold_ge bsearch_left_unfold_done linear_nearest_def)
section \<open>Claims about the longitude domain, the tolerance gate and the time slice\<close>






section \<open>Claims about the file resolver\<close>



section \<open>Claims about failures and dataset handles\<close>




text \<open>
  C8, as the code has it.  A product step, a day step and a run of the loop that return
  leave the list of open datasets as they found it, so the loop reaches every day-group
  with no dataset of an earlier group open, and a run that returns ends with none open.
\<close>

theorem datasets_closed_between_groups:
  "main_loop a fs (pre @ rest) st0 =
     (case main_loop a fs pre st0 of Inl x \<Rightarrow> Inl x | Inr st \<Rightarrow> main_loop a fs rest st) \<and>
   (main_loop a fs pre st0 = Inr st \<longrightarrow> rs_opened st = rs_opened st0) \<and>
   (main a fs rows cells0 = Inr st' \<longrightarrow> rs_opened st' = []) \<and>
   (day_step a fs g st1 = Inr st2 \<longrightarrow> rs_opened st2 = rs_opened st1) \<and>
   (product_step fs product base_dir vars out tol gi day day_rows st1 = Inr st3 \<longrightarrow>
      rs_opened st3 = rs_opened st1)"
proof (intro conjI impI)
  show "main_loop a fs (pre @ rest) st0 =
     (case main_loop a fs pre st0 of Inl x \<Rightarrow> Inl x | Inr st \<Rightarrow> main_loop a fs rest st)"
    by (rule main_loop_append)
next
  assume "main_loop a fs pre st0 = Inr st"
  from main_loop_opened_log [OF this] show "rs_opened st = rs_opened st0" by simp
next
  assume "main a fs rows cells0 = Inr st'"
  then have "main_loop a fs (enumerate 1 (groupby_date rows))
               \<lparr>rs_cells = prepare_columns a cells0,
                rs_log = [Processing (length (groupby_date rows))], rs_opened = []\<rparr> = Inr st'"
    unfolding main_def by (simp add: Let_def)
  from main_loop_opened_log [OF this] show "rs_opened st' = []" by simp
next
  assume "day_step a fs g st1 = Inr st2"
  then show "rs_opened st2 = rs_opened st1" by (rule day_step_opened)
next
  assume "product_step fs product base_dir vars out tol gi day day_rows st1 = Inr st3"
  then show "rs_opened st3 = rs_opened st1" by (rule product_step_opened)
qed

theorem datasets_closed_between_groups_witness:
  "\<exists>st st2 st3.
     main ex_args ex_fs ex_table Map.empty = Inr st \<and> rs_opened st = [] \<and>
     main_loop ex_args ex_fs (enumerate 1 (groupby_date ex_table)) ex_state0 = Inr st2 \<and>
     rs_opened st2 = rs_opened ex_state0 \<and>
     day_step ex_args ex_fs (1, (2020, 3, 15), ex_rows) ex_state0 = Inr st3 \<and>
     rs_opened st3 = rs_opened ex_state0 \<and>
     product_step ex_fs ''plankton'' ''/p'' [''CHL''] (\<lambda>v. v) 0.05 1 (2020, 3, 15) ex_rows ex_state0
       = Inr (ex_state0\<lparr>rs_cells := write_day (\<lambda>v. v) [''CHL''] (map fst ex_rows) ex_results
                                        (rs_cells ex_state0)\<rparr>)"
proof -
  from main_total [OF ex_fs_has_axes] obtain st where
    st: "main ex_args ex_fs ex_table Map.empty = Inr st" by blast
  have ne: "\<forall>g\<in>set (enumerate 1 (groupby_date ex_table)). snd (snd g) \<noteq> []"
    by (simp add: grp enumerate_eq_zip)
  from main_loop_total [OF ex_fs_has_axes ne] obtain st2 where
    st2: "main_loop ex_args ex_fs (enumerate 1 (groupby_date ex_table)) ex_state0 = Inr st2"
    by blast
  have "ex_rows \<noteq> []" by (simp add: ex_rows_def)
  from day_step_total [OF ex_fs_has_axes this] obtain st3 where
    st3: "day_step ex_args ex_fs (1, (2020, 3, 15), ex_rows) ex_state0 = Inr st3" by blast
  have c: "file_candidates_for_date ex_fs ''/p'' 2020 3 15 = [''/p/2020/20200315_plk.nc'']"
    by (simp add: file_candidates_for_date_def fmt_0d_def py_str.simps digit_char_def
        path_join_def glob_magic_def glob_plain_def ex_fs_def ishidden_def Let_def)
  have o: "open_first ex_fs [''/p/2020/20200315_plk.nc''] = Some (''/p/2020/20200315_plk.nc'', ex_ds)"
    by (simp add: ex_fs_def)
  obtain gv where v: "ds_data_vars ex_ds ''CHL'' = Some gv" by (simp add: ex_ds_def)
  have e: "process_one_day ex_ds ex_rows [''CHL''] (1 / 20) = Inr ex_results"
    using ex_day_eval by simp
  have p: "product_step ex_fs ''plankton'' ''/p'' [''CHL''] (\<lambda>v. v) 0.05 1 (2020, 3, 15) ex_rows
             ex_state0
       = Inr (ex_state0\<lparr>rs_cells := write_day (\<lambda>v. v) [''CHL''] (map fst ex_rows) ex_results
                                        (rs_cells ex_state0)\<rparr>)"
    by (simp add: product_step_def c o v e Let_def ex_state0_def del: open_first.simps)
  note th = datasets_closed_between_groups [where a = ex_args and fs = ex_fs
      and pre = "enumerate 1 (groupby_date ex_table)" and rest = "[]" and ?st0.0 = ex_state0
      and st = st2 and rows = ex_table and ?cells0.0 = Map.empty and st' = st
      and g = "(1, (2020, 3, 15), ex_rows)" and ?st1.0 = ex_state0 and ?st2.0 = st3
      and product = "''plankton''" and base_dir = "''/p''" and vars = "[''CHL'']"
      and out = "\<lambda>v. v" and tol = "0.05" and gi = 1 and day = "(2020, 3, 15)"
      and day_rows = ex_rows
      and ?st3.0 = "ex_state0\<lparr>rs_cells := write_day (\<lambda>v. v) [''CHL''] (map fst ex_rows)
                                      ex_results (rs_cells ex_state0)\<rparr>"]
  from th st have a: "rs_opened st = []" by blast
  from th st2 have b: "rs_opened st2 = rs_opened ex_state0" by blast
  from th st3 have d: "rs_opened st3 = rs_opened ex_state0" by blast
  from st a st2 b st3 d p show ?thesis by blast
qed

text \<open>
  C8, as stated, fails on the exit path of an error raised while a group is processed:
  \<^verbatim>\<open>ds.close()\<close> follows the processing without a \<^verbatim>\<open>finally\<close>, so the error leaves
  \<^verbatim>\<open>main\<close> with the dataset still open.
\<close>

theorem dataset_left_open_on_error:
  "run_error (main ex_args ex_fs_noaxes ex_table Map.empty) = Some KeyError \<and>
   run_opened (main ex_args ex_fs_noaxes ex_table Map.empty) = [''/p/2020/20200315_plk.nc'']"
  by (simp add: noaxes_main run_error_def run_opened_def)
section \<open>Claims about the output columns\<close>



text \<open>
  C9, as the code has it.  When no output name of the optics product is a plankton name
  and no two optics variables share an output name (so for the default lists, where the
  optics \<^verbatim>\<open>flags\<close> goes to \<^verbatim>\<open>flags_optics\<close> and every other name is kept), each cell of
  a product's column is decided by that product's files alone: it holds the value merged
  from the product's dataset of the row's day when one opens, and otherwise what the
  input table held there, which is ``no data'' for a column the run created.
\<close>

theorem products_independent:
  assumes run: "main a fs rows cells0 = Inr st"
    and dis: "set (plankton_vars a) \<inter> out_name_optics ` set (optics_vars a) = {}"
    and inj: "inj_on out_name_optics (set (optics_vars a))"
    and i: "ridx < length rows"
  shows "(v \<in> set (plankton_vars a) \<longrightarrow>
           cellv (rs_cells st) v ridx =
             (case product_value fs (plankton_base_dir a) (plankton_vars a) (tol_deg a)
                     (date_key (rows ! ridx)) (day_rows_of rows ridx) ridx v of
                Some x \<Rightarrow> x
              | None \<Rightarrow> cellv cells0 v ridx)) \<and>
         (v \<in> set (optics_vars a) \<longrightarrow>
           cellv (rs_cells st) (out_name_optics v) ridx =
             (case optics_base_dir a of
                None \<Rightarrow> cellv cells0 (out_name_optics v) ridx
              | Some dir \<Rightarrow>
                  if dir \<noteq> [] then
                    (case product_value fs dir (optics_vars a) (tol_deg a)
                            (date_key (rows ! ridx)) (day_rows_of rows ridx) ridx v of
                       Some x \<Rightarrow> x
                     | None \<Rightarrow> cellv cells0 (out_name_optics v) ridx)
                  else cellv cells0 (out_name_optics v) ridx)) \<and>
         out_name_optics ''flags'' = ''flags_optics'' \<and>
         (v \<noteq> ''flags'' \<longrightarrow> out_name_optics v = v) \<and>
         set DEFAULT_PLANKTON_VARS \<inter> out_name_optics ` set DEFAULT_OPTICS_VARS = {} \<and>
         inj_on out_name_optics (set DEFAULT_OPTICS_VARS)"
  using main_cell_plankton [OF run dis i, of v] main_cell_optics [OF run dis inj i, of v]
    defaults_disjoint out_name_optics_cases [of v]
  by blast

theorem products_independent_witness:
  "set (plankton_vars ex_args) \<inter> out_name_optics ` set (optics_vars ex_args) = {} \<and>
   inj_on out_name_optics (set (optics_vars ex_args)) \<and> 0 < length ex_table \<and>
   (\<exists>st. main ex_args ex_fs ex_table Map.empty = Inr st \<and>
      cellv (rs_cells st) ''CHL'' 0 = NaN \<and> cellv (rs_cells st) ''flags'' 0 = NaN \<and>
      cellv (rs_cells st) ''BBP'' 0 = Fin 5 \<and> cellv (rs_cells st) ''flags_optics'' 0 = Fin 1 \<and>
      cellv (rs_cells st) ''CDM'' 0 = NaN)"
proof -
  have dis: "set (plankton_vars ex_args) \<inter> out_name_optics ` set (optics_vars ex_args) = {}"
    by (simp add: ex_args_def out_name_optics_def RENAME_OUT_def)
  have inj: "inj_on out_name_optics (set (optics_vars ex_args))"
    by (simp add: ex_args_def out_name_optics_def RENAME_OUT_def inj_on_def)
  have len: "0 < length ex_table" by (simp add: ex_table_def)
  from main_total [OF ex_fs_has_axes] obtain st where
    st: "main ex_args ex_fs ex_table Map.empty = Inr st" by blast
  note th = products_independent [OF st dis inj len]
  have a: "plankton_vars ex_args = [''CHL'', ''flags'']" "optics_vars ex_args = [''BBP'', ''flags'', ''CDM'']"
    "plankton_base_dir ex_args = ''/p''" "optics_base_dir ex_args = Some ''/o''"
    "tol_deg ex_args = 0.05" by (simp_all add: ex_args_def)
  have d: "date_key (ex_table ! 0) = (2020, 3, 16)" "day_rows_of ex_table 0 = [(0, ex_sample_next)]"
    using ex_table_days by simp_all
  have o: "out_name_optics ''BBP'' = ''BBP''" "out_name_optics ''flags'' = ''flags_optics''"
    "out_name_optics ''CDM'' = ''CDM''" by (simp_all add: out_name_optics_def RENAME_OUT_def)
  note ev = ex_values [simplified]
  have c1: "cellv (rs_cells st) ''CHL'' 0 = NaN"
    using th [of "''CHL''"] by (simp add: a d ev cellv_def)
  have c2: "cellv (rs_cells st) ''flags'' 0 = NaN"
    using th [of "''flags''"] by (simp add: a d ev cellv_def)
  have c3: "cellv (rs_cells st) ''BBP'' 0 = Fin 5"
    using th [of "''BBP''"] by (simp add: a d o ev values_get_def)
  have c4: "cellv (rs_cells st) ''flags_optics'' 0 = Fin 1"
    using th [of "''flags''"] by (simp add: a d o ev values_get_def)
  have c5: "cellv (rs_cells st) ''CDM'' 0 = NaN"
    using th [of "''CDM''"] by (simp add: a d o ev values_get_def)
  from dis inj len st c1 c2 c3 c4 c5 show ?thesis by blast
qed

text \<open>
  C9, as stated, fails when both products are asked for a variable of the same name other
  than \<^verbatim>\<open>flags\<close>: the rename table has that one entry.  With CHL asked of both, no
  plankton file and an optics file that has CHL, the column CHL of the plankton product
  holds the optics value instead of ``no data''.
\<close>

theorem shared_name_overwrites:
  "''CHL'' \<in> set (plankton_vars ex_args_collide) \<and>
   product_value ex_fs (plankton_base_dir ex_args_collide) (plankton_vars ex_args_collide)
     (tol_deg ex_args_collide) (2020, 3, 15) [(0, ex_sample)] 0 ''CHL'' = None \<and>
   run_cell (main ex_args_collide ex_fs [ex_sample] Map.empty) ''CHL'' 0 = Some (Fin 0.42)"
proof -
  have a: "plankton_vars ex_args_collide = [''CHL'']" "optics_vars ex_args_collide = [''CHL'']"
    "plankton_base_dir ex_args_collide = ''/none''" "optics_base_dir ex_args_collide = Some ''/p''"
    "tol_deg ex_args_collide = 0.05" by (simp_all add: ex_args_collide_def)
  have d: "date_key ([ex_sample] ! 0) = (2020, 3, 15)" "day_rows_of [ex_sample] 0 = [(0, ex_sample)]"
    by (simp_all add: day_rows_of_def date_key_def ex_sample_def)
  have o: "out_name_optics ''CHL'' = ''CHL''" by (simp add: out_name_optics_def RENAME_OUT_def)
  from main_total [OF ex_fs_has_axes] obtain st where
    st: "main ex_args_collide ex_fs [ex_sample] Map.empty = Inr st" by blast
  have len: "0 < length [ex_sample]" by simp
  from main_loop_cell_group [OF main_Inr [OF st] len] obtain gi st1 st2 where
    ds: "day_step ex_args_collide ex_fs (gi, (2020, 3, 15), [(0, ex_sample)]) st1 = Inr st2"
    and e: "\<forall>c. cellv (rs_cells st) c 0 = cellv (rs_cells st2) c 0"
    unfolding d by blast
  from ds obtain sa sb where
    p0: "product_step ex_fs ''plankton'' (plankton_base_dir ex_args_collide)
          (plankton_vars ex_args_collide) (\<lambda>v. v) (tol_deg ex_args_collide)
          gi (2020, 3, 15) [(0, ex_sample)] st1 = Inr sa"
    and q: "(case optics_base_dir ex_args_collide of
        None \<Rightarrow> sb = sa
      | Some dir \<Rightarrow>
          if dir \<noteq> [] then
            product_step ex_fs ''optics'' dir (optics_vars ex_args_collide) out_name_optics
              (tol_deg ex_args_collide) gi (2020, 3, 15) [(0, ex_sample)] sa = Inr sb
          else sb = sa)"
    and f: "st2 = sb\<lparr>rs_log := rs_log sb @ [DayDone gi (length [(0::nat, ex_sample)])]\<rparr>"
    by (rule day_step_Inr)
  from q have q': "product_step ex_fs ''optics'' ''/p'' [''CHL''] out_name_optics 0.05 gi
      (2020, 3, 15) [(0, ex_sample)] sa = Inr sb" unfolding a by simp
  have "cellv (rs_cells sb) (out_name_optics ''CHL'') 0 =
          (case product_value ex_fs ''/p'' [''CHL''] 0.05 (2020, 3, 15) [(0, ex_sample)] 0 ''CHL'' of
             Some x \<Rightarrow> x
           | None \<Rightarrow> cellv (rs_cells sa) (out_name_optics ''CHL'') 0)"
    by (rule product_step_cell [OF q']) simp_all
  then have "cellv (rs_cells sb) ''CHL'' 0 = Fin 0.42"
    unfolding ex_collide_values o by simp
  with e f have "cellv (rs_cells st) ''CHL'' 0 = Fin 0.42" by simp
  then have r: "run_cell (main ex_args_collide ex_fs [ex_sample] Map.empty) ''CHL'' 0
                  = Some (Fin 0.42)"
    unfolding st run_cell_def by simp
  have m: "''CHL'' \<in> set (plankton_vars ex_args_collide)" unfolding a by simp
  have p: "product_value ex_fs (plankton_base_dir ex_args_collide)
     (plankton_vars ex_args_collide) (tol_deg ex_args_collide) (2020, 3, 15) [(0, ex_sample)] 0
     ''CHL'' = None"
    unfolding a by (rule ex_collide_values(1))
  from m p r show ?thesis by (intro conjI)
qed

end
